theory Spec2Isabelle
  imports Complex_Main "HOL-Library.Multiset" "HOL-Library.Sublist"
begin

unbundle bit_operations_syntax

section \<open>Incremental octree point locator\<close>

text \<open>
  A shallow embedding of \<^verbatim>\<open>svtkIncrementalOctreePointLocator.cxx\<close>. A C++ \<^verbatim>\<open>double\<close>
  is modelled by a real number (exact arithmetic, no rounding, no NaN), a
  \<^verbatim>\<open>double[3]\<close> and a \<^verbatim>\<open>double[6]\<close> by a list of reals, \<^verbatim>\<open>svtkIdType\<close> and \<^verbatim>\<open>int\<close> by
  unbounded integers, and \<^verbatim>\<open>size_t\<close> by a natural number. A mutated object is passed
  in and returned updated; a dereferenced null pointer is an error value.
\<close>

type_synonym svtkIdType = int
type_synonym point = "real list"

text \<open>
  The largest finite \<^verbatim>\<open>double\<close>, \<open>2\<^sup>1\<^sup>0\<^sup>2\<^sup>4 - 2\<^sup>9\<^sup>7\<^sup>1\<close>, the sentinel of the source.
\<close>

definition SVTK_DOUBLE_MAX :: real where
  "SVTK_DOUBLE_MAX =
     179769313486231570814527423731704356798070567525844996598917476803157260780028538760589558632766878171540458953514382464234321326889464182768467546703537516986049910576551282076245490090389328944075868508455133942304583236903222948165808559332123348274797826204144723168738177180919299881250404026184124858368"

lemma SVTK_DOUBLE_MAX_value: "SVTK_DOUBLE_MAX = 2 ^ 1024 - 2 ^ 971"
  by (simp add: SVTK_DOUBLE_MAX_def)

text \<open>\<^verbatim>\<open>svtkMath::Distance2BetweenPoints\<close>.\<close>

definition Distance2BetweenPoints :: "point \<Rightarrow> point \<Rightarrow> real" where
  "Distance2BetweenPoints p1 p2 =
     (p1 ! 0 - p2 ! 0) * (p1 ! 0 - p2 ! 0) +
     (p1 ! 1 - p2 ! 1) * (p1 ! 1 - p2 ! 1) +
     (p1 ! 2 - p2 ! 2) * (p1 ! 2 - p2 ! 2)"

subsection \<open>The sorter of \<^verbatim>\<open>FindClosestNPoints\<close>\<close>

text \<open>
  \<^verbatim>\<open>std::map<double, std::list<svtkIdType> >\<close> is an association list kept in strictly
  ascending key order: \<open>map_find\<close> is \<^verbatim>\<open>find\<close>, \<open>map_store\<close> is \<^verbatim>\<open>operator[]\<close> followed by
  an assignment, the last entry is \<^verbatim>\<open>--end()\<close>, and \<open>butlast\<close> erases it.
\<close>

type_synonym dist2map = "(real \<times> svtkIdType list) list"

fun map_find :: "dist2map \<Rightarrow> real \<Rightarrow> svtkIdType list option" where
  "map_find [] k = None"
| "map_find ((k', v) # m) k = (if k = k' then Some v else map_find m k)"

fun map_store :: "real \<Rightarrow> svtkIdType list \<Rightarrow> dist2map \<Rightarrow> dist2map" where
  "map_store k v [] = [(k, v)]"
| "map_store k v ((k', v') # m) =
     (if k < k' then (k, v) # (k', v') # m
      else if k = k' then (k, v) # m
      else (k', v') # map_store k v m)"

record SortPoints =
  NumRequested :: nat
  NumberPoints :: nat
  LargestDist2 :: real
  dist2ToIds :: dist2map

text \<open>The constructor; the \<^verbatim>\<open>int\<close> argument is converted to \<^verbatim>\<open>size_t\<close> (64 bits).\<close>

definition SortPoints_new :: "int \<Rightarrow> SortPoints" where
  "SortPoints_new N =
     \<lparr> NumRequested = nat (N mod 2 ^ 64), NumberPoints = 0,
       LargestDist2 = SVTK_DOUBLE_MAX, dist2ToIds = [] \<rparr>"

text \<open>The map of \<^verbatim>\<open>InsertPoint\<close> after the new pair has been added.\<close>

definition add_pair :: "dist2map \<Rightarrow> real \<Rightarrow> svtkIdType \<Rightarrow> dist2map" where
  "add_pair m dist2 pntId =
     (case map_find m dist2 of
        None \<Rightarrow> map_store dist2 [pntId] m
      | Some ids \<Rightarrow> map_store dist2 (ids @ [pntId]) m)"

text \<open>
  \<^verbatim>\<open>SortPoints::InsertPoint\<close>. The subtraction is on \<^verbatim>\<open>size_t\<close>; it cannot wrap when
  \<open>NumberPoints\<close> counts the ids of the map, which \<open>sorter_inv\<close> below states.
\<close>

definition InsertPoint :: "SortPoints \<Rightarrow> real \<Rightarrow> svtkIdType \<Rightarrow> SortPoints" where
  "InsertPoint s dist2 pntId =
     (if dist2 \<le> LargestDist2 s \<or> NumberPoints s < NumRequested s then
        let n = NumberPoints s + 1;
            m = add_pair (dist2ToIds s) dist2 pntId
        in if n > NumRequested s then
             let it = last m in
             if n - length (snd it) > NumRequested s then
               s \<lparr> NumberPoints := n - length (snd it),
                   LargestDist2 := fst (last (butlast m)),
                   dist2ToIds := butlast m \<rparr>
             else s \<lparr> NumberPoints := n, dist2ToIds := m \<rparr>
           else s \<lparr> NumberPoints := n, dist2ToIds := m \<rparr>
      else s)"

text \<open>
  \<^verbatim>\<open>SortPoints::GetSortedIds\<close>: the first \<open>min NumRequested NumberPoints\<close> ids in
  ascending key order, the ids of one key in the order of their insertion.
\<close>

definition GetSortedIds :: "SortPoints \<Rightarrow> svtkIdType list" where
  "GetSortedIds s =
     (let numIds = (if NumRequested s < NumberPoints s then NumRequested s else NumberPoints s)
      in take numIds (concat (map snd (dist2ToIds s))))"

definition GetLargestDist2 :: "SortPoints \<Rightarrow> real" where
  "GetLargestDist2 s = LargestDist2 s"

text \<open>What the sorter keeps true: ascending keys, no empty bucket, a correct count.\<close>

definition sorter_inv :: "SortPoints \<Rightarrow> bool" where
  "sorter_inv s \<longleftrightarrow>
     sorted_wrt (<) (map fst (dist2ToIds s)) \<and>
     (\<forall>e \<in> set (dist2ToIds s). snd e \<noteq> []) \<and>
     NumberPoints s = length (concat (map snd (dist2ToIds s)))"

subsubsection \<open>The map operations\<close>

lemma map_find_store:
  "map_find (map_store k v m) k' = (if k' = k then Some v else map_find m k')"
  by (induction m) auto

lemma keys_store: "set (map fst (map_store k v m)) = insert k (set (map fst m))"
  by (induction m) (simp_all, force)

lemma sorted_store:
  "sorted_wrt (<) (map fst m) \<Longrightarrow> sorted_wrt (<) (map fst (map_store k v m))"
proof (induction m)
  case Nil
  then show ?case by simp
next
  case (Cons a m)
  have "\<forall>x\<in>set (map fst (map_store k v m)). fst a < x" if "fst a < k"
    using Cons.prems that unfolding keys_store by auto
  with Cons show ?case by (cases a) auto
qed

lemma map_find_None: "map_find m k = None \<longleftrightarrow> k \<notin> set (map fst m)"
  by (induction m) (simp_all, force)

lemma map_find_Some_mem: "map_find m k = Some v \<Longrightarrow> (k, v) \<in> set m"
  by (induction m) (auto split: if_splits)

lemma map_find_sorted:
  "sorted_wrt (<) (map fst m) \<Longrightarrow> (k, v) \<in> set m \<Longrightarrow> map_find m k = Some v"
  by (induction m) force+

lemma map_store_nonempty: "map_store k v m \<noteq> []"
  by (cases m) (auto split: if_splits)

lemma add_pair_nonempty: "add_pair m d i \<noteq> []"
  by (simp add: add_pair_def map_store_nonempty split: option.splits)

lemma sorted_add_pair:
  "sorted_wrt (<) (map fst m) \<Longrightarrow> sorted_wrt (<) (map fst (add_pair m d i))"
  by (simp add: add_pair_def sorted_store split: option.splits)

lemma bucket_le_total: "(k, w) \<in> set m \<Longrightarrow> length w \<le> length (concat (map snd m))"
  by (induction m) auto

lemma buckets_store:
  "sorted_wrt (<) (map fst m) \<Longrightarrow>
   length (concat (map snd (map_store k v m))) =
     length (concat (map snd m)) + length v - (case map_find m k of None \<Rightarrow> 0 | Some w \<Rightarrow> length w)"
proof (induction m)
  case Nil
  then show ?case by simp
next
  case (Cons a m)
  obtain k' v' where a: "a = (k', v')" by (cases a)
  show ?case
  proof (cases "k < k'")
    case True
    have "k \<notin> set (map fst m)" using Cons.prems True a by auto
    then have "map_find m k = None" by (simp add: map_find_None)
    with True a show ?thesis by auto
  next
    case False
    note nlt = False
    show ?thesis
    proof (cases "k = k'")
      case True
      with a show ?thesis by simp
    next
      case False
      have le: "(case map_find m k of None \<Rightarrow> 0 | Some w \<Rightarrow> length w) \<le> length (concat (map snd m))"
        by (auto split: option.splits dest!: map_find_Some_mem bucket_le_total)
      from False nlt a Cons show ?thesis using le by (auto split: option.splits)
    qed
  qed
qed

lemma sorted_last_max:
  "sorted_wrt (<) (map fst m) \<Longrightarrow> m \<noteq> [] \<Longrightarrow> fst (last m) = Max (set (map fst m))"
proof (induction m)
  case Nil
  then show ?case by simp
next
  case (Cons a m)
  show ?case
  proof (cases "m = []")
    case True
    then show ?thesis by simp
  next
    case False
    with Cons have IH: "fst (last m) = Max (set (map fst m))" by simp
    have "fst a < fst (last m)" using Cons.prems False by (simp add: last_in_set)
    then show ?thesis using False IH by (auto simp: max_def)
  qed
qed

lemma sorted_butlast:
  "sorted_wrt (<) (map fst m) \<Longrightarrow> sorted_wrt (<) (map fst (butlast m))"
  by (induction m) (auto dest: in_set_butlastD)

lemma find_butlast:
  "sorted_wrt (<) (map fst m) \<Longrightarrow> m \<noteq> [] \<Longrightarrow>
   map_find (butlast m) k = (if k = fst (last m) then None else map_find m k)"
proof (induction m)
  case Nil
  then show ?case by simp
next
  case (Cons a m)
  obtain k' v' where a: "a = (k', v')" by (cases a)
  show ?case
  proof (cases "m = []")
    case True
    with a show ?thesis by simp
  next
    case False
    have "k' < fst (last m)" using Cons.prems False a by (simp add: last_in_set)
    with Cons False a show ?thesis by auto
  qed
qed

lemma find_last:
  "sorted_wrt (<) (map fst m) \<Longrightarrow> m \<noteq> [] \<Longrightarrow> map_find m (fst (last m)) = Some (snd (last m))"
  by (rule map_find_sorted) (simp_all add: last_in_set)

lemma count_butlast:
  "m \<noteq> [] \<Longrightarrow> length (concat (map snd (butlast m))) =
     length (concat (map snd m)) - length (snd (last m))"
proof (induction m)
  case Nil
  then show ?case by simp
next
  case (Cons a m)
  show ?case
  proof (cases "m = []")
    case True
    then show ?thesis by simp
  next
    case False
    have "length (snd (last m)) \<le> length (concat (map snd m))"
      using bucket_le_total[of "fst (last m)" "snd (last m)" m] False by simp
    with Cons False show ?thesis by simp
  qed
qed

lemma count_add_pair:
  assumes "sorted_wrt (<) (map fst m)"
  shows "length (concat (map snd (add_pair m d i))) = length (concat (map snd m)) + 1"
  using assms by (auto simp: add_pair_def buckets_store split: option.splits)

lemma buckets_store_set:
  "e \<in> set (map_store k v m) \<Longrightarrow> e = (k, v) \<or> e \<in> set m"
  by (induction m) (auto split: if_splits)

lemma nonempty_add_pair:
  "\<forall>e \<in> set m. snd e \<noteq> [] \<Longrightarrow> \<forall>e \<in> set (add_pair m d i). snd e \<noteq> []"
  by (auto simp: add_pair_def split: option.splits dest!: buckets_store_set)

lemma find_add_pair:
  "map_find (add_pair m d i) k =
     (if k = d then Some ((case map_find m d of None \<Rightarrow> [] | Some ids \<Rightarrow> ids) @ [i]) else map_find m k)"
  by (simp add: add_pair_def map_find_store split: option.splits)

lemma InsertPoint_inv:
  assumes "sorter_inv s"
  shows "sorter_inv (InsertPoint s d i)"
proof -
  let ?m = "add_pair (dist2ToIds s) d i"
  have s: "sorted_wrt (<) (map fst ?m)" using assms by (simp add: sorter_inv_def sorted_add_pair)
  have n: "\<forall>e \<in> set ?m. snd e \<noteq> []" using assms nonempty_add_pair[of "dist2ToIds s" d i] by (simp add: sorter_inv_def)
  have c: "length (concat (map snd ?m)) = NumberPoints s + 1"
    using assms by (simp add: sorter_inv_def count_add_pair)
  have ne: "?m \<noteq> []" by (rule add_pair_nonempty)
  have sb: "sorted_wrt (<) (map fst (butlast ?m))" using s by (rule sorted_butlast)
  have nb: "\<forall>e \<in> set (butlast ?m). snd e \<noteq> []" using n by (auto dest: in_set_butlastD)
  have cb: "length (concat (map snd (butlast ?m))) = NumberPoints s + 1 - length (snd (last ?m))"
    using c ne by (simp add: count_butlast)
  show ?thesis
    using assms s n c sb nb cb
    by (simp add: InsertPoint_def Let_def sorter_inv_def del: map_butlast)
qed


text \<open>
  Claim C4 (amended). When the count after adding the new pair exceeds \<open>NumRequested\<close>, the
  bucket at the largest key is removed exactly when the count without that bucket is
  still strictly greater than \<open>NumRequested\<close>; then the count drops by the size of the
  bucket and \<open>LargestDist2\<close> becomes the largest remaining key. Otherwise the map keeps
  the bucket, the count stays above \<open>NumRequested\<close> and \<open>LargestDist2\<close> is unchanged.
\<close>

theorem InsertPoint_drops_largest_bucket:
  assumes "sorter_inv s"
    and "dist2 \<le> LargestDist2 s \<or> NumberPoints s < NumRequested s"
    and "NumRequested s < NumberPoints s + 1"
  shows "\<exists>bucket.
     (let m = add_pair (dist2ToIds s) dist2 pntId;
          kmax = Max (set (map fst m));
          s' = InsertPoint s dist2 pntId
      in map_find m kmax = Some bucket \<and>
         (if NumRequested s < NumberPoints s + 1 - length bucket
          then map_find (dist2ToIds s') kmax = None \<and>
               (\<forall>k. k \<noteq> kmax \<longrightarrow> map_find (dist2ToIds s') k = map_find m k) \<and>
               NumberPoints s' = NumberPoints s + 1 - length bucket \<and>
               LargestDist2 s' = Max (set (map fst (dist2ToIds s')))
          else dist2ToIds s' = m \<and> NumberPoints s' = NumberPoints s + 1 \<and>
               NumRequested s < NumberPoints s' \<and> LargestDist2 s' = LargestDist2 s))"
proof -
  let ?m = "add_pair (dist2ToIds s) dist2 pntId"
  let ?k = "Max (set (map fst ?m))"
  have s: "sorted_wrt (<) (map fst ?m)" using assms(1) by (simp add: sorter_inv_def sorted_add_pair)
  have ne: "?m \<noteq> []" by (rule add_pair_nonempty)
  have k: "fst (last ?m) = ?k" using s ne by (rule sorted_last_max)
  have f: "map_find ?m ?k = Some (snd (last ?m))" using find_last[OF s ne] k by simp
  have c: "length (concat (map snd ?m)) = NumberPoints s + 1"
    using assms(1) by (simp add: sorter_inv_def count_add_pair)
  have fb: "map_find (butlast ?m) x = (if x = ?k then None else map_find ?m x)" for x
    using find_butlast[OF s ne] k by simp
  have big: "fst (last (butlast ?m)) = Max (set (map fst (butlast ?m)))"
    if "NumRequested s < NumberPoints s + 1 - length (snd (last ?m))"
  proof -
    have "length (concat (map snd (butlast ?m))) > 0"
      using that c ne by (simp add: count_butlast)
    then have "butlast ?m \<noteq> []" by auto
    then show ?thesis using sorted_butlast[OF s] by (rule sorted_last_max[rotated])
  qed
  show ?thesis
    apply (rule exI[of _ "snd (last ?m)"])
    using assms(2,3) f fb big
    by (simp add: InsertPoint_def Let_def del: map_butlast)
qed


text \<open>The amended claim at a third insertion, where the bucket of key 3 is dropped.\<close>

theorem InsertPoint_drops_largest_bucket_witness:
  "\<exists>bucket.
     (let s = InsertPoint (InsertPoint (SortPoints_new 1) 1 0) 2 1;
          m = add_pair (dist2ToIds s) 3 2;
          kmax = Max (set (map fst m));
          s' = InsertPoint s 3 2
      in sorter_inv s \<and> NumRequested s < NumberPoints s + 1 \<and> map_find m kmax = Some bucket \<and>
         NumRequested s < NumberPoints s + 1 - length bucket \<and>
         map_find (dist2ToIds s') kmax = None \<and>
         NumberPoints s' = NumberPoints s + 1 - length bucket \<and>
         LargestDist2 s' = 2)"
proof -
  let ?s = "InsertPoint (InsertPoint (SortPoints_new 1) 1 0) 2 1"
  have s: "?s = \<lparr> NumRequested = 1, NumberPoints = 2, LargestDist2 = SVTK_DOUBLE_MAX,
                  dist2ToIds = [(1, [0]), (2, [1])] \<rparr>"
    by (simp add: InsertPoint_def SortPoints_new_def add_pair_def Let_def SVTK_DOUBLE_MAX_def)
  have i: "sorter_inv ?s" unfolding s by (simp add: sorter_inv_def)
  have a: "3 \<le> LargestDist2 ?s \<or> NumberPoints ?s < NumRequested ?s"
    unfolding s by (simp add: SVTK_DOUBLE_MAX_def)
  have n: "NumRequested ?s < NumberPoints ?s + 1" unfolding s by simp
  show ?thesis
    using InsertPoint_drops_largest_bucket[OF i a n, of 2] i
    unfolding s
    by (simp add: add_pair_def Let_def InsertPoint_def SVTK_DOUBLE_MAX_def)
qed

text \<open>
  With \<open>NumRequested = 1\<close> and the pair \<open>(1, 0)\<close> stored, adding \<open>(2, 1)\<close> gives a count of
  2; removing the bucket of key 2 would leave a count of \<open>1 \<ge> NumRequested\<close>, yet the
  bucket is kept: the test of the source is a strict \<open>>\<close>.
\<close>

theorem InsertPoint_drop_counterexample:
  "let s = InsertPoint (SortPoints_new 1) 1 0;
       m = add_pair (dist2ToIds s) 2 1;
       s' = InsertPoint s 2 1
   in NumRequested s < NumberPoints s + 1 \<and>
      map_find m (Max (set (map fst m))) = Some [1] \<and>
      \<not> (map_find (dist2ToIds s') (Max (set (map fst m))) = None \<longleftrightarrow>
           NumRequested s \<le> NumberPoints s + 1 - length [1::int]) \<and>
      dist2ToIds s' = m \<and> NumberPoints s' = 2 \<and> LargestDist2 s' = SVTK_DOUBLE_MAX"
  by (simp add: InsertPoint_def SortPoints_new_def add_pair_def Let_def SVTK_DOUBLE_MAX_def)


subsection \<open>The octree node\<close>

text \<open>
  Modelled from the spec: the class \<^verbatim>\<open>svtkIncrementalOctreeNode\<close>, which the locator uses
  and whose source is not at hand. Section 3 of the specification gives a node a box
  (\<open>min_bounds\<close>, \<open>max_bounds\<close>), the tight box of the points below it (empty when the
  node has no point, here \<open>None\<close>), the number of points below it, and either an
  ordered list of point ids (a leaf) or eight children (an internal node).
\<close>

datatype svtkIncrementalOctreeNode =
    Leaf (MinBounds: point) (MaxBounds: point) (DataBounds: "(point \<times> point) option")
      (NumberOfPoints: int) (PointIds: "svtkIdType list")
  | Internal (MinBounds: point) (MaxBounds: point) (DataBounds: "(point \<times> point) option")
      (NumberOfPoints: int) (Children: "svtkIncrementalOctreeNode list")

text \<open>
  A pointer to a node of the tree is the path from the root (the child indices) together
  with the node it points to; two pointers are the same pointer when the paths agree.
\<close>

type_synonym node_ptr = "nat list \<times> svtkIncrementalOctreeNode"

text \<open>Modelled from the spec: \<^verbatim>\<open>IsLeaf\<close>, \<^verbatim>\<open>GetPointIdSet\<close>, \<^verbatim>\<open>GetBounds\<close> and \<^verbatim>\<open>GetChild\<close> of the node.\<close>

fun IsLeaf :: "svtkIncrementalOctreeNode \<Rightarrow> bool" where
  "IsLeaf (Leaf mn mx db n ids) = True"
| "IsLeaf (Internal mn mx db n cs) = False"

fun GetPointIdSet :: "svtkIncrementalOctreeNode \<Rightarrow> svtkIdType list option" where
  "GetPointIdSet (Leaf mn mx db n ids) = Some ids"
| "GetPointIdSet (Internal mn mx db n cs) = None"

definition Node_GetBounds :: "svtkIncrementalOctreeNode \<Rightarrow> real list" where
  "Node_GetBounds n =
     [MinBounds n ! 0, MaxBounds n ! 0, MinBounds n ! 1, MaxBounds n ! 1,
      MinBounds n ! 2, MaxBounds n ! 2]"

fun GetChildren :: "node_ptr \<Rightarrow> node_ptr list" where
  "GetChildren (path, Leaf mn mx db n ids) = []"
| "GetChildren (path, Internal mn mx db n cs) =
     map (\<lambda>i. (path @ [i], cs ! i)) [0..<length cs]"

text \<open>
  Modelled from the spec: the box test of the node, half-open on \<open>min\<close> and closed on \<open>max\<close>
  (\<^verbatim>\<open>ContainsPoint\<close>), and the same test against the data box (\<^verbatim>\<open>ContainsPointByData\<close>).
\<close>

definition in_box :: "point \<Rightarrow> point \<Rightarrow> point \<Rightarrow> bool" where
  "in_box lo hi p \<longleftrightarrow>
     lo ! 0 < p ! 0 \<and> p ! 0 \<le> hi ! 0 \<and>
     lo ! 1 < p ! 1 \<and> p ! 1 \<le> hi ! 1 \<and>
     lo ! 2 < p ! 2 \<and> p ! 2 \<le> hi ! 2"

definition ContainsPoint :: "svtkIncrementalOctreeNode \<Rightarrow> point \<Rightarrow> bool" where
  "ContainsPoint n p = in_box (MinBounds n) (MaxBounds n) p"

definition ContainsPointByData :: "svtkIncrementalOctreeNode \<Rightarrow> point \<Rightarrow> bool" where
  "ContainsPointByData n p =
     (case DataBounds n of None \<Rightarrow> False | Some (lo, hi) \<Rightarrow> in_box lo hi p)"

text \<open>
  Modelled from the spec: the centre of the box and \<^verbatim>\<open>GetChildIndex\<close>, the 3-bit mask
  \<open>(x > mid.x) << 0 | (y > mid.y) << 1 | (z > mid.z) << 2\<close>.
\<close>

definition MidPoint :: "point \<Rightarrow> point \<Rightarrow> point" where
  "MidPoint mn mx = [(mn ! 0 + mx ! 0) / 2, (mn ! 1 + mx ! 1) / 2, (mn ! 2 + mx ! 2) / 2]"

definition ChildIndex :: "point \<Rightarrow> point \<Rightarrow> point \<Rightarrow> nat" where
  "ChildIndex mn mx p =
     (if p ! 0 > MidPoint mn mx ! 0 then 1 else 0) +
     (if p ! 1 > MidPoint mn mx ! 1 then 2 else 0) +
     (if p ! 2 > MidPoint mn mx ! 2 then 4 else 0)"

definition GetChildIndex :: "svtkIncrementalOctreeNode \<Rightarrow> point \<Rightarrow> nat" where
  "GetChildIndex n p = ChildIndex (MinBounds n) (MaxBounds n) p"

text \<open>
  Modelled from the spec: the boxes of the eight children tile the box of the parent;
  child \<open>k\<close> has the upper half of axis \<open>a\<close> exactly when bit \<open>a\<close> of \<open>k\<close> is set.
\<close>

definition child_bounds :: "point \<Rightarrow> point \<Rightarrow> nat \<Rightarrow> point \<times> point" where
  "child_bounds mn mx k =
     (let md = MidPoint mn mx;
          b0 = (k mod 2 = 1); b1 = ((k div 2) mod 2 = 1); b2 = ((k div 4) mod 2 = 1)
      in ([if b0 then md ! 0 else mn ! 0, if b1 then md ! 1 else mn ! 1,
           if b2 then md ! 2 else mn ! 2],
          [if b0 then mx ! 0 else md ! 0, if b1 then mx ! 1 else md ! 1,
           if b2 then mx ! 2 else md ! 2]))"

text \<open>
  Modelled from the spec: \<^verbatim>\<open>GetDistance2ToBoundary(p, root, use_data_box)\<close>. With the data
  box and no point below the node the result is the sentinel. Otherwise it is the
  squared distance from \<open>p\<close> to the chosen box, 0 inside the box, where a face that
  coincides with the same face of the root's box does not contribute.
\<close>

definition axis_dist2 :: "real \<Rightarrow> real \<Rightarrow> real \<Rightarrow> real \<Rightarrow> real \<Rightarrow> real" where
  "axis_dist2 lo hi rlo rhi v =
     (if v < lo then (if lo = rlo then 0 else (lo - v) * (lo - v))
      else if v > hi then (if hi = rhi then 0 else (v - hi) * (v - hi))
      else 0)"

definition chosen_box :: "svtkIncrementalOctreeNode \<Rightarrow> bool \<Rightarrow> (point \<times> point) option" where
  "chosen_box n checkData = (if checkData then DataBounds n else Some (MinBounds n, MaxBounds n))"

definition GetDistance2ToBoundary ::
  "svtkIncrementalOctreeNode \<Rightarrow> point \<Rightarrow> svtkIncrementalOctreeNode \<Rightarrow> bool \<Rightarrow> real" where
  "GetDistance2ToBoundary n p rt checkData =
     (if checkData \<and> NumberOfPoints n = 0 then SVTK_DOUBLE_MAX
      else case (chosen_box n checkData, chosen_box rt checkData) of
          (Some (lo, hi), Some (rlo, rhi)) \<Rightarrow>
             axis_dist2 (lo ! 0) (hi ! 0) (rlo ! 0) (rhi ! 0) (p ! 0) +
             axis_dist2 (lo ! 1) (hi ! 1) (rlo ! 1) (rhi ! 1) (p ! 1) +
             axis_dist2 (lo ! 2) (hi ! 2) (rlo ! 2) (rhi ! 2) (p ! 2)
        | _ \<Rightarrow> SVTK_DOUBLE_MAX)"

text \<open>
  Modelled from the spec: the overload of \<^verbatim>\<open>GetDistance2ToBoundary\<close> that also returns the
  closest point, the projection of \<open>p\<close> on the chosen box (section 4.4, outside case).
\<close>

definition clamp_axis :: "real \<Rightarrow> real \<Rightarrow> real \<Rightarrow> real" where
  "clamp_axis lo hi v = (if v < lo then lo else if v > hi then hi else v)"

definition GetClosestPointOnBoundary ::
  "svtkIncrementalOctreeNode \<Rightarrow> point \<Rightarrow> bool \<Rightarrow> point" where
  "GetClosestPointOnBoundary n p checkData =
     (case chosen_box n checkData of
        None \<Rightarrow> [p ! 0, p ! 1, p ! 2]
      | Some (lo, hi) \<Rightarrow>
          [clamp_axis (lo ! 0) (hi ! 0) (p ! 0), clamp_axis (lo ! 1) (hi ! 1) (p ! 1),
           clamp_axis (lo ! 2) (hi ! 2) (p ! 2)])"

text \<open>
  Modelled from the spec: \<^verbatim>\<open>GetDistance2ToInnerBoundary(p, root)\<close>, the squared distance from
  \<open>p\<close> to the nearest face of the node's box that is not on the boundary of the root's
  box; the sentinel when the node has no such face.
\<close>

definition inner_face_dists ::
  "svtkIncrementalOctreeNode \<Rightarrow> point \<Rightarrow> svtkIncrementalOctreeNode \<Rightarrow> real list" where
  "inner_face_dists n p rt =
     concat (map (\<lambda>a.
        (if MinBounds n ! a \<noteq> MinBounds rt ! a then [\<bar>p ! a - MinBounds n ! a\<bar>] else []) @
        (if MaxBounds n ! a \<noteq> MaxBounds rt ! a then [\<bar>MaxBounds n ! a - p ! a\<bar>] else []))
      [0, 1, 2])"

definition GetDistance2ToInnerBoundary ::
  "svtkIncrementalOctreeNode \<Rightarrow> point \<Rightarrow> svtkIncrementalOctreeNode \<Rightarrow> real" where
  "GetDistance2ToInnerBoundary n p rt =
     (case inner_face_dists n p rt of
        [] \<Rightarrow> SVTK_DOUBLE_MAX
      | d # ds \<Rightarrow> fold min ds d * fold min ds d)"

text \<open>
  Modelled from the spec: \<^verbatim>\<open>ExportAllPointIdsByInsertion\<close> and
  \<^verbatim>\<open>ExportAllPointIdsByDirectSet\<close>, every id beneath the node in depth-first order.
\<close>

fun ExportAllPointIds :: "svtkIncrementalOctreeNode \<Rightarrow> svtkIdType list" where
  "ExportAllPointIds (Leaf mn mx db n ids) = ids"
| "ExportAllPointIds (Internal mn mx db n cs) = concat (map ExportAllPointIds cs)"

text \<open>Modelled from the spec: \<^verbatim>\<open>SetBounds\<close> on a new node gives an empty leaf with that box.\<close>

definition SetBounds :: "real list \<Rightarrow> svtkIncrementalOctreeNode" where
  "SetBounds b = Leaf [b ! 0, b ! 2, b ! 4] [b ! 1, b ! 3, b ! 5] None 0 []"

text \<open>
  Modelled from the spec: the insertion of a point into a leaf (section 4.1). The id is
  appended and the data box extended; when the leaf then holds more than
  \<open>max_points_per_leaf\<close> ids and every side of its box is at least twice the fudge factor,
  the leaf becomes an internal node whose eight empty children receive the ids whose
  points their boxes contain, with data boxes recomputed from these ids.
\<close>

definition extend_data :: "(point \<times> point) option \<Rightarrow> point \<Rightarrow> (point \<times> point) option" where
  "extend_data db p =
     (case db of
        None \<Rightarrow> Some ([p ! 0, p ! 1, p ! 2], [p ! 0, p ! 1, p ! 2])
      | Some (lo, hi) \<Rightarrow>
          Some ([min (lo ! 0) (p ! 0), min (lo ! 1) (p ! 1), min (lo ! 2) (p ! 2)],
                [max (hi ! 0) (p ! 0), max (hi ! 1) (p ! 1), max (hi ! 2) (p ! 2)]))"

definition GetPoint :: "point list \<Rightarrow> svtkIdType \<Rightarrow> point" where
  "GetPoint pts i = pts ! nat i"

definition child_leaf ::
  "point list \<Rightarrow> point \<Rightarrow> point \<Rightarrow> svtkIdType list \<Rightarrow> nat \<Rightarrow> svtkIncrementalOctreeNode" where
  "child_leaf pts mn mx ids k =
     (let (lo, hi) = child_bounds mn mx k;
          mine = filter (\<lambda>i. in_box lo hi (GetPoint pts i)) ids
      in Leaf lo hi (fold (\<lambda>i db. extend_data db (GetPoint pts i)) mine None)
           (int (length mine)) mine)"

fun Node_InsertPoint ::
  "point list \<Rightarrow> real \<Rightarrow> int \<Rightarrow> svtkIncrementalOctreeNode \<Rightarrow> point \<Rightarrow> svtkIdType
     \<Rightarrow> svtkIncrementalOctreeNode" where
  "Node_InsertPoint pts fudge maxPts (Leaf mn mx db n ids) p i =
     (let ids' = ids @ [i]; db' = extend_data db p
      in if int (length ids') > maxPts \<and>
            mx ! 0 - mn ! 0 \<ge> 2 * fudge \<and> mx ! 1 - mn ! 1 \<ge> 2 * fudge \<and>
            mx ! 2 - mn ! 2 \<ge> 2 * fudge
         then Internal mn mx db' (n + 1) (map (child_leaf pts mn mx ids') [0..<8])
         else Leaf mn mx db' (n + 1) ids')"
| "Node_InsertPoint pts fudge maxPts (Internal mn mx db n cs) p i = Internal mn mx db n cs"


subsection \<open>The locator\<close>

datatype error = NullPointerDereference | EndlessLoop

text \<open>
  The fields of \<^verbatim>\<open>svtkIncrementalOctreePointLocator\<close>, followed by the four fields of its
  superclass \<^verbatim>\<open>svtkLocator\<close> that the file reads: the tolerance, the data set (its points,
  \<open>None\<close> for a null pointer or a data set that is no \<^verbatim>\<open>svtkPointSet\<close>) and two time stamps,
  with the modification time of the data set. A \<^verbatim>\<open>svtkPoints\<close> container is the list of
  its points, of type \<^verbatim>\<open>double\<close>, indexed by point id.
\<close>

record svtkIncrementalOctreePointLocator =
  FudgeFactor :: real
  OctreeMaxDimSize :: real
  BuildCubicOctree :: int
  MaxPointsPerLeaf :: int
  InsertTolerance2 :: real
  LocatorPoints :: "point list option"
  OctreeRootNode :: "svtkIncrementalOctreeNode option"
  Tolerance :: real
  DataSet :: "point list option"
  BuildTime :: nat
  MTime :: nat
  DataSetMTime :: nat

text \<open>The constructor; the superclass part is what \<^verbatim>\<open>svtkLocator\<close> sets up, given here.\<close>

definition New ::
  "real \<Rightarrow> point list option \<Rightarrow> nat \<Rightarrow> nat \<Rightarrow> nat \<Rightarrow> svtkIncrementalOctreePointLocator" where
  "New tol ds bt mt dmt =
     \<lparr> FudgeFactor = 0, OctreeMaxDimSize = 0, BuildCubicOctree = 0, MaxPointsPerLeaf = 128,
       InsertTolerance2 = 0.000001, LocatorPoints = None, OctreeRootNode = None,
       Tolerance = tol, DataSet = ds, BuildTime = bt, MTime = mt, DataSetMTime = dmt \<rparr>"

definition FreeSearchStructure ::
  "svtkIncrementalOctreePointLocator \<Rightarrow> svtkIncrementalOctreePointLocator" where
  "FreeSearchStructure l = l \<lparr> OctreeRootNode := None, LocatorPoints := None \<rparr>"

definition GetNumberOfPoints :: "svtkIncrementalOctreePointLocator \<Rightarrow> int" where
  "GetNumberOfPoints l = (case OctreeRootNode l of None \<Rightarrow> 0 | Some rt \<Rightarrow> NumberOfPoints rt)"

text \<open>\<^verbatim>\<open>GetBounds\<close> writes into the caller's array, which is returned.\<close>

definition GetBounds :: "svtkIncrementalOctreePointLocator \<Rightarrow> real list \<Rightarrow> real list" where
  "GetBounds l bounds =
     (case OctreeRootNode l of
        None \<Rightarrow> bounds
      | Some rt \<Rightarrow>
          bounds[0 := MinBounds rt ! 0, 1 := MaxBounds rt ! 0, 2 := MinBounds rt ! 1,
                 3 := MaxBounds rt ! 1, 4 := MinBounds rt ! 2, 5 := MaxBounds rt ! 2])"

text \<open>
  \<^verbatim>\<open>GetLeafContainer\<close>. An internal node has eight children, so the child index is within
  the list; the last case stands for the read outside the array.
\<close>

function GetLeafContainer :: "node_ptr \<Rightarrow> point \<Rightarrow> node_ptr" where
  "GetLeafContainer (path, Leaf mn mx db n ids) pnt = (path, Leaf mn mx db n ids)"
| "GetLeafContainer (path, Internal mn mx db n cs) pnt =
     (let k = GetChildIndex (Internal mn mx db n cs) pnt
      in if k < length cs then GetLeafContainer (path @ [k], cs ! k) pnt
         else (path, Internal mn mx db n cs))"
  by pat_completeness auto
termination
  by (relation "measure (\<lambda>(ptr, pnt). size (snd ptr))")
     (auto simp: less_Suc_eq_le intro!: size_list_estimation' [OF nth_mem])

subsubsection \<open>Initialisation\<close>

text \<open>
  \<^verbatim>\<open>InitPointInsertion\<close>. The three loops over the axes are written axis by axis:
  \<open>dimDiff0\<close> is \<^verbatim>\<open>dimDiff[i]\<close> after the first loop, \<open>cube_axis\<close> the body of the second
  loop and \<open>fix_axis\<close> the body of the third, each on the triple
  \<open>(tmpBbox[2i], tmpBbox[2i+1], dimDiff[i])\<close>. The constants \<^verbatim>\<open>10e-6\<close> and \<^verbatim>\<open>10e-2\<close> are
  \<open>1 / 100000\<close> and \<open>1 / 10\<close>.
\<close>

definition dimDiff0 :: "real list \<Rightarrow> nat \<Rightarrow> real" where
  "dimDiff0 bounds i = bounds ! (2 * i + 1) - bounds ! (2 * i)"

definition MaxDimSize :: "real list \<Rightarrow> real" where
  "MaxDimSize bounds =
     fold (\<lambda>i m. if dimDiff0 bounds i > m then dimDiff0 bounds i else m) [0, 1, 2] 0"

definition cube_axis :: "int \<Rightarrow> real \<Rightarrow> real \<times> real \<times> real \<Rightarrow> real \<times> real \<times> real" where
  "cube_axis cubic maxDim t =
     (case t of (lo, hi, d) \<Rightarrow>
        if cubic \<noteq> 0 \<and> d \<noteq> maxDim
        then (lo - 0.5 * (maxDim - d), hi + 0.5 * (maxDim - d), maxDim)
        else (lo, hi, d))"

definition fix_axis :: "real \<Rightarrow> real \<Rightarrow> real \<times> real \<times> real \<Rightarrow> real \<times> real" where
  "fix_axis fudge minSideSize t =
     (case t of (lo, hi, d) \<Rightarrow>
        if d < minSideSize then (hi - minSideSize, lo + minSideSize)
        else (lo - fudge, hi))"

definition root_axis :: "int \<Rightarrow> real list \<Rightarrow> nat \<Rightarrow> real \<times> real" where
  "root_axis cubic bounds i =
     (let maxDim = MaxDimSize bounds
      in fix_axis (maxDim * (10 / 1000000)) (maxDim * (10 / 100))
           (cube_axis cubic maxDim (bounds ! (2 * i), bounds ! (2 * i + 1), dimDiff0 bounds i)))"

definition InitPointInsertion ::
  "svtkIncrementalOctreePointLocator \<Rightarrow> point list option \<Rightarrow> real list
     \<Rightarrow> svtkIncrementalOctreePointLocator \<times> int" where
  "InitPointInsertion l points bounds =
     (case points of
        None \<Rightarrow> (l, 0)
      | Some pts \<Rightarrow>
          let l1 = FreeSearchStructure l;
              maxDim = MaxDimSize bounds;
              tmpBbox = [fst (root_axis (BuildCubicOctree l) bounds 0),
                         snd (root_axis (BuildCubicOctree l) bounds 0),
                         fst (root_axis (BuildCubicOctree l) bounds 1),
                         snd (root_axis (BuildCubicOctree l) bounds 1),
                         fst (root_axis (BuildCubicOctree l) bounds 2),
                         snd (root_axis (BuildCubicOctree l) bounds 2)]
          in (l1 \<lparr> LocatorPoints := Some pts,
                   InsertTolerance2 := Tolerance l * Tolerance l,
                   OctreeMaxDimSize := maxDim,
                   FudgeFactor := maxDim * (10 / 1000000),
                   OctreeRootNode := Some (SetBounds tmpBbox) \<rparr>, 1))"

subsubsection \<open>Insertion and \<^verbatim>\<open>BuildLocator\<close>\<close>

text \<open>
  Modelled from the spec: the effect of the node's \<^verbatim>\<open>InsertPoint\<close> on the tree. The leaf that
  \<^verbatim>\<open>GetLeafContainer\<close> reaches takes the point, and every node on the way counts one point
  more and extends its data box (sections 3 and 4.1).
\<close>

function Tree_InsertPoint ::
  "point list \<Rightarrow> real \<Rightarrow> int \<Rightarrow> svtkIncrementalOctreeNode \<Rightarrow> point \<Rightarrow> svtkIdType
     \<Rightarrow> svtkIncrementalOctreeNode" where
  "Tree_InsertPoint pts fudge maxPts (Leaf mn mx db n ids) p i =
     Node_InsertPoint pts fudge maxPts (Leaf mn mx db n ids) p i"
| "Tree_InsertPoint pts fudge maxPts (Internal mn mx db n cs) p i =
     (let k = GetChildIndex (Internal mn mx db n cs) p
      in if k < length cs
         then Internal mn mx (extend_data db p) (n + 1)
                (cs[k := Tree_InsertPoint pts fudge maxPts (cs ! k) p i])
         else Internal mn mx db n cs)"
  by pat_completeness auto
termination
  by (relation "measure (\<lambda>(pts, fudge, maxPts, n, p, i). size n)")
     (auto simp: less_Suc_eq_le intro!: size_list_estimation' [OF nth_mem])

text \<open>
  \<^verbatim>\<open>InsertPointWithoutChecking\<close>. With \<open>insert = 0\<close> the coordinates are not stored and the id
  is the caller's, as the comment in \<^verbatim>\<open>BuildLocator\<close> says; otherwise the point is appended
  to the container, whose next id it receives.
\<close>

definition InsertPointWithoutChecking ::
  "svtkIncrementalOctreePointLocator \<Rightarrow> point \<Rightarrow> svtkIdType \<Rightarrow> int
     \<Rightarrow> error + (svtkIncrementalOctreePointLocator \<times> svtkIdType)" where
  "InsertPointWithoutChecking l pnt pntId ins =
     (case (OctreeRootNode l, LocatorPoints l) of
        (Some rt, Some pts) \<Rightarrow>
          (case (if ins = 0 then (pts, pntId) else (pts @ [pnt], int (length pts))) of
             (pts', i) \<Rightarrow>
               Inr (l \<lparr> OctreeRootNode :=
                          Some (Tree_InsertPoint pts' (FudgeFactor l) (MaxPointsPerLeaf l) rt pnt i),
                        LocatorPoints := Some pts' \<rparr>, i))
      | _ \<Rightarrow> Inl NullPointerDereference)"

text \<open>\<^verbatim>\<open>svtkPoints::GetBounds\<close> of the container: the bounding box of its points.\<close>

definition Points_GetBounds :: "point list \<Rightarrow> real list" where
  "Points_GetBounds pts =
     (case pts of
        [] \<Rightarrow> [1, -1, 1, -1, 1, -1]
      | p # ps \<Rightarrow>
          [fold (\<lambda>q m. min m (q ! 0)) ps (p ! 0), fold (\<lambda>q m. max m (q ! 0)) ps (p ! 0),
           fold (\<lambda>q m. min m (q ! 1)) ps (p ! 1), fold (\<lambda>q m. max m (q ! 1)) ps (p ! 1),
           fold (\<lambda>q m. min m (q ! 2)) ps (p ! 2), fold (\<lambda>q m. max m (q ! 2)) ps (p ! 2)])"

definition SVTK_INT_MAX :: int where
  "SVTK_INT_MAX = 2147483647"

fun insert_points ::
  "svtkIncrementalOctreePointLocator \<Rightarrow> point list \<Rightarrow> svtkIdType list
     \<Rightarrow> error + svtkIncrementalOctreePointLocator" where
  "insert_points l thePoints [] = Inr l"
| "insert_points l thePoints (pointIndx # rest) =
     (case InsertPointWithoutChecking l (GetPoint thePoints pointIndx) pointIndx 0 of
        Inl e \<Rightarrow> Inl e
      | Inr (l', i) \<Rightarrow> insert_points l' thePoints rest)"

text \<open>
  \<^verbatim>\<open>BuildLocator\<close>. \<^verbatim>\<open>BuildTime.Modified()\<close> takes a time stamp later than every earlier
  one.
\<close>

definition BuildLocator ::
  "svtkIncrementalOctreePointLocator \<Rightarrow> error + svtkIncrementalOctreePointLocator" where
  "BuildLocator l =
     (case DataSet l of
        None \<Rightarrow> Inr l
      | Some thePoints \<Rightarrow>
          let numPoints = int (length thePoints)
          in if numPoints < 1 \<or> numPoints \<ge> SVTK_INT_MAX then Inr l
             else if BuildTime l > MTime l \<and> BuildTime l > DataSetMTime l then Inr l
             else
               (case insert_points
                       (fst (InitPointInsertion l (Some thePoints) (Points_GetBounds thePoints)))
                       thePoints (map int [0..<length thePoints]) of
                  Inl e \<Rightarrow> Inl e
                | Inr l' \<Rightarrow>
                    Inr (l' \<lparr> BuildTime := Suc (max (BuildTime l) (max (MTime l) (DataSetMTime l))) \<rparr>)))"

subsubsection \<open>Closest point\<close>

text \<open>
  \<^verbatim>\<open>FindClosestPointInLeafNode\<close>: the loop over the ids of the leaf, on the pair
  \<open>(pntIdx, *dist2)\<close>.
\<close>

fun leaf_scan ::
  "point list \<Rightarrow> point \<Rightarrow> svtkIdType list \<Rightarrow> svtkIdType \<times> real \<Rightarrow> svtkIdType \<times> real" where
  "leaf_scan pts pnt [] acc = acc"
| "leaf_scan pts pnt (tmpIdx # rest) (pntIdx, dist2) =
     (let tmpDst = Distance2BetweenPoints (GetPoint pts tmpIdx) pnt;
          acc = (if tmpDst < dist2 then (tmpIdx, tmpDst) else (pntIdx, dist2))
      in if snd acc = 0 then acc else leaf_scan pts pnt rest acc)"

definition FindClosestPointInLeafNode ::
  "point list \<Rightarrow> svtkIncrementalOctreeNode \<Rightarrow> point \<Rightarrow> svtkIdType \<times> real" where
  "FindClosestPointInLeafNode pts leafNode pnt =
     (case GetPointIdSet leafNode of
        None \<Rightarrow> (-1, SVTK_DOUBLE_MAX)
      | Some idList \<Rightarrow> leaf_scan pts pnt idList (-1, SVTK_DOUBLE_MAX))"

text \<open>
  \<^verbatim>\<open>FindClosestPointInSphere\<close>. The stack is a list with its top first. \<open>refDist2\<close> is \<open>None\<close>
  when the caller passes the pointer \<open>minDist2\<close> itself for \<^verbatim>\<open>refDist2\<close>, so that the
  threshold is the current \<open>*minDist2\<close>, and \<open>Some r\<close> when it points to a value \<open>r\<close> of its
  own. The result is the pair of the returned id and the final \<open>*minDist2\<close>.
\<close>

definition sphere_suspect ::
  "svtkIncrementalOctreeNode \<Rightarrow> point \<Rightarrow> real \<Rightarrow> nat list option \<Rightarrow> real \<Rightarrow> node_ptr \<Rightarrow> bool" where
  "sphere_suspect rt pnt radius2 maskNode refDist2 childNode =
     (let distToData =
            (if NumberOfPoints (snd childNode) \<noteq> 0
             then GetDistance2ToBoundary (snd childNode) pnt rt True
             else radius2 + radius2)
      in Some (fst childNode) \<noteq> maskNode \<and>
         (distToData \<le> refDist2 \<or> ContainsPoint (snd childNode) pnt))"

lemma sum_list_Suc: "sum_list (map (\<lambda>c. Suc (f c)) cs) = sum_list (map f cs) + length cs"
  by (induction cs) auto

lemma children_size:
  "sum_list (map (\<lambda>c. Suc (size (snd c))) (GetChildren (path, Internal mn mx db n cs)))
     < Suc (size (Internal mn mx db n cs))"
proof -
  have "map (\<lambda>c. Suc (size (snd c))) (GetChildren (path, Internal mn mx db n cs))
          = map (\<lambda>c. Suc (size c)) (map ((!) cs) [0..<length cs])"
    by (simp add: comp_def)
  also have "\<dots> = map (\<lambda>c. Suc (size c)) cs" by (simp only: map_nth)
  finally show ?thesis by (simp add: size_list_conv_sum_list sum_list_Suc)
qed

lemma filter_size_le:
  "sum_list (map (f :: 'a \<Rightarrow> nat) (filter P xs)) \<le> sum_list (map f xs)"
  by (induction xs) auto

function sphere_loop ::
  "point list \<Rightarrow> svtkIncrementalOctreeNode \<Rightarrow> point \<Rightarrow> real \<Rightarrow> nat list option \<Rightarrow> real option
     \<Rightarrow> node_ptr list \<Rightarrow> real \<Rightarrow> svtkIdType \<Rightarrow> svtkIdType \<times> real" where
  "sphere_loop pts rt pnt radius2 maskNode refDist2 [] minDist2 pointIndx =
     (pointIndx, minDist2)"
| "sphere_loop pts rt pnt radius2 maskNode refDist2 (checkNode # nodesBase) minDist2 pointIndx =
     (if \<not> minDist2 > 0 then (pointIndx, minDist2)
      else if \<not> IsLeaf (snd checkNode) then
        sphere_loop pts rt pnt radius2 maskNode refDist2
          (rev (filter (sphere_suspect rt pnt radius2 maskNode
                          (case refDist2 of None \<Rightarrow> minDist2 | Some r \<Rightarrow> r))
                  (GetChildren checkNode)) @ nodesBase)
          minDist2 pointIndx
      else
        (case FindClosestPointInLeafNode pts (snd checkNode) pnt of
           (tempPntId, tempDist2) \<Rightarrow>
             if tempDist2 < minDist2
             then sphere_loop pts rt pnt radius2 maskNode refDist2 nodesBase tempDist2 tempPntId
             else sphere_loop pts rt pnt radius2 maskNode refDist2 nodesBase minDist2 pointIndx))"
  by pat_completeness auto
termination
proof (relation "measure (\<lambda>(pts, rt, pnt, radius2, maskNode, refDist2, st, minDist2, pointIndx).
          sum_list (map (\<lambda>c. Suc (size (snd c))) st))", goal_cases)
  case 1
  show ?case by simp
next
  case (2 pts rt pnt radius2 maskNode refDist2 checkNode nodesBase minDist2 pointIndx)
  obtain path nd where c: "checkNode = (path, nd)" by (cases checkNode)
  from 2 obtain mn mx db n cs where nd: "nd = Internal mn mx db n cs"
    using c by (cases nd) auto
  have "sum_list (map (\<lambda>c. Suc (size (snd c)))
          (filter (sphere_suspect rt pnt radius2 maskNode
                     (case refDist2 of None \<Rightarrow> minDist2 | Some r \<Rightarrow> r))
             (GetChildren checkNode)))
        \<le> sum_list (map (\<lambda>c. Suc (size (snd c))) (GetChildren checkNode))"
    by (rule filter_size_le)
  also have "\<dots> < Suc (size nd)" unfolding c nd by (rule children_size)
  finally show ?case using c by (simp add: rev_map [symmetric] sum_list_rev del: GetChildren.simps)
next
  case 3
  then show ?case by simp
next
  case 4
  then show ?case by simp
qed

definition FindClosestPointInSphere ::
  "point list \<Rightarrow> svtkIncrementalOctreeNode \<Rightarrow> point \<Rightarrow> real \<Rightarrow> nat list option \<Rightarrow> real
     \<Rightarrow> real option \<Rightarrow> svtkIdType \<times> real" where
  "FindClosestPointInSphere pts rt pnt radius2 maskNode minDist2 refDist2 =
     (case sphere_loop pts rt pnt radius2 maskNode refDist2 [([], rt)] minDist2 (-1) of
        (pointIndx, minDist2') \<Rightarrow> (if minDist2' \<le> radius2 then pointIndx else -1, minDist2'))"

definition FindClosestPointInSphereWithoutTolerance ::
  "point list \<Rightarrow> svtkIncrementalOctreeNode \<Rightarrow> point \<Rightarrow> real \<Rightarrow> nat list option
     \<Rightarrow> svtkIdType \<times> real" where
  "FindClosestPointInSphereWithoutTolerance pts rt pnt radius2 maskNode =
     FindClosestPointInSphere pts rt pnt radius2 maskNode (radius2 * 1.1) None"




text \<open>
  \<^verbatim>\<open>FindClosestInsertedPoint\<close>. The root and the point container are set together by
  \<^verbatim>\<open>InitPointInsertion\<close> and cleared together by \<^verbatim>\<open>FreeSearchStructure\<close>; a root without a
  container is reported as the null pointer that reading a point would dereference.
\<close>

definition FindClosestInsertedPoint ::
  "svtkIncrementalOctreePointLocator \<Rightarrow> point \<Rightarrow> error + svtkIdType" where
  "FindClosestInsertedPoint l x =
     (case OctreeRootNode l of
        None \<Rightarrow> Inr (-1)
      | Some rt \<Rightarrow>
          if NumberOfPoints rt = 0 \<or> \<not> ContainsPoint rt x then Inr (-1)
          else
            (case LocatorPoints l of
               None \<Rightarrow> Inl NullPointerDereference
             | Some pts \<Rightarrow>
                 (case GetLeafContainer ([], rt) x of
                    pLeafNode \<Rightarrow>
                      (case FindClosestPointInLeafNode pts (snd pLeafNode) x of
                         (pointIndx, miniDist2) \<Rightarrow>
                           if miniDist2 > 0 \<and>
                              GetDistance2ToInnerBoundary (snd pLeafNode) x rt < miniDist2
                           then
                             (case FindClosestPointInSphereWithoutTolerance pts rt x miniDist2
                                     (Some (fst pLeafNode)) of
                                (elsePntId, elseDist2) \<Rightarrow>
                                  if elseDist2 < miniDist2 then Inr elsePntId else Inr pointIndx)
                           else Inr pointIndx))))"

text \<open>
  \<^verbatim>\<open>FindClosestPoint(const double x[3], double* miniDist2)\<close>; the result is the returned id
  with the final \<open>*miniDist2\<close>. \<open>nudge_axis\<close> is one of the three \<^verbatim>\<open>if\<close>/\<^verbatim>\<open>else if\<close> pairs that
  move the initial point into the octree.
\<close>

definition nudge_axis :: "real \<Rightarrow> real \<Rightarrow> real \<Rightarrow> real \<Rightarrow> real" where
  "nudge_axis fudge mn mx v = (if v \<le> mn then mn + fudge else if v \<ge> mx then mx - fudge else v)"

definition FindClosestPoint ::
  "svtkIncrementalOctreePointLocator \<Rightarrow> point \<Rightarrow> error + (svtkIdType \<times> real)" where
  "FindClosestPoint l0 x =
     (case BuildLocator l0 of
        Inl e \<Rightarrow> Inl e
      | Inr l \<Rightarrow>
          (case OctreeRootNode l of
             None \<Rightarrow> Inr (-1, OctreeMaxDimSize l * OctreeMaxDimSize l * 4.0)
           | Some rt \<Rightarrow>
               if NumberOfPoints rt = 0
               then Inr (-1, OctreeMaxDimSize l * OctreeMaxDimSize l * 4.0)
               else
                 (case LocatorPoints l of
                    None \<Rightarrow> Inl NullPointerDereference
                  | Some pts \<Rightarrow>
                      if ContainsPoint rt x then
                        (case GetLeafContainer ([], rt) x of
                           pLeafNode \<Rightarrow>
                             (case FindClosestPointInLeafNode pts (snd pLeafNode) x of
                                (pointIndx, miniDist2) \<Rightarrow>
                                  if miniDist2 > 0 \<and>
                                     GetDistance2ToInnerBoundary (snd pLeafNode) x rt < miniDist2
                                  then
                                    (case FindClosestPointInSphereWithoutTolerance pts rt x
                                            miniDist2 (Some (fst pLeafNode)) of
                                       (elsePntId, elseDist2) \<Rightarrow>
                                         if elseDist2 < miniDist2 then Inr (elsePntId, elseDist2)
                                         else Inr (pointIndx, miniDist2))
                                  else Inr (pointIndx, miniDist2)))
                      else
                        (case GetClosestPointOnBoundary rt x True of
                           initialPt0 \<Rightarrow>
                             (case GetLeafContainer ([], rt)
                                     [nudge_axis (FudgeFactor l) (MinBounds rt ! 0)
                                        (MaxBounds rt ! 0) (initialPt0 ! 0),
                                      nudge_axis (FudgeFactor l) (MinBounds rt ! 1)
                                        (MaxBounds rt ! 1) (initialPt0 ! 1),
                                      nudge_axis (FudgeFactor l) (MinBounds rt ! 2)
                                        (MaxBounds rt ! 2) (initialPt0 ! 2)] of
                                pLeafNode \<Rightarrow>
                                  (case FindClosestPointInLeafNode pts (snd pLeafNode) x of
                                     (pointIndx, miniDist2) \<Rightarrow>
                                       (case FindClosestPointInSphereWithoutTolerance pts rt x
                                               miniDist2 (Some (fst pLeafNode)) of
                                          (elsePntId, elseDist2) \<Rightarrow>
                                            if elseDist2 < miniDist2
                                            then Inr (elsePntId, elseDist2)
                                            else Inr (pointIndx, miniDist2))))))))"

text \<open>
  \<^verbatim>\<open>FindClosestPointWithinRadius\<close> and \<^verbatim>\<open>FindClosestPointWithinSquaredRadius\<close>. The search
  pushes the root pointer and dereferences it when the loop is entered.
\<close>

definition FindClosestPointWithinSquaredRadius ::
  "svtkIncrementalOctreePointLocator \<Rightarrow> real \<Rightarrow> point \<Rightarrow> error + (svtkIdType \<times> real)" where
  "FindClosestPointWithinSquaredRadius l0 radius2 x =
     (case BuildLocator l0 of
        Inl e \<Rightarrow> Inl e
      | Inr l \<Rightarrow>
          (case OctreeRootNode l of
             None \<Rightarrow>
               if radius2 * 1.1 > 0 then Inl NullPointerDereference else Inr (-1, radius2 * 1.1)
           | Some rt \<Rightarrow>
               (case LocatorPoints l of
                  None \<Rightarrow> Inl NullPointerDereference
                | Some pts \<Rightarrow> Inr (FindClosestPointInSphereWithoutTolerance pts rt x radius2 None))))"

definition FindClosestPointWithinRadius ::
  "svtkIncrementalOctreePointLocator \<Rightarrow> real \<Rightarrow> point \<Rightarrow> error + (svtkIdType \<times> real)" where
  "FindClosestPointWithinRadius l0 radius x =
     FindClosestPointWithinSquaredRadius l0 (radius * radius) x"

subsubsection \<open>Points within a radius\<close>

text \<open>
  \<^verbatim>\<open>FindPointsWithinSquaredRadius\<close> on a node: \<open>axis_minmax\<close> is the body of the loop over
  the axes, the contributions of one axis to \<open>outMinDst2\<close> and \<open>maximDist2\<close>.
\<close>

definition axis_minmax :: "real \<Rightarrow> real \<Rightarrow> real \<Rightarrow> real \<times> real" where
  "axis_minmax lo hi v =
     (let tempValue0 = v - lo; tempValue1 = hi - v
      in if tempValue0 < 0 then (tempValue0 * tempValue0, tempValue1 * tempValue1)
         else if tempValue1 < 0 then (tempValue1 * tempValue1, tempValue0 * tempValue0)
         else if tempValue1 > tempValue0 then (0, tempValue1 * tempValue1)
         else (0, tempValue0 * tempValue0))"

definition outMinDst2 :: "svtkIncrementalOctreeNode \<Rightarrow> point \<Rightarrow> real" where
  "outMinDst2 node pnt =
     0 + fst (axis_minmax (Node_GetBounds node ! 0) (Node_GetBounds node ! 1) (pnt ! 0))
       + fst (axis_minmax (Node_GetBounds node ! 2) (Node_GetBounds node ! 3) (pnt ! 1))
       + fst (axis_minmax (Node_GetBounds node ! 4) (Node_GetBounds node ! 5) (pnt ! 2))"

definition maximDist2 :: "svtkIncrementalOctreeNode \<Rightarrow> point \<Rightarrow> real" where
  "maximDist2 node pnt =
     0 + snd (axis_minmax (Node_GetBounds node ! 0) (Node_GetBounds node ! 1) (pnt ! 0))
       + snd (axis_minmax (Node_GetBounds node ! 2) (Node_GetBounds node ! 3) (pnt ! 1))
       + snd (axis_minmax (Node_GetBounds node ! 4) (Node_GetBounds node ! 5) (pnt ! 2))"

fun FindPointsWithinSquaredRadius_node ::
  "point list \<Rightarrow> svtkIncrementalOctreeNode \<Rightarrow> real \<Rightarrow> point \<Rightarrow> svtkIdType list
     \<Rightarrow> svtkIdType list" where
  "FindPointsWithinSquaredRadius_node pts (Leaf mn mx db n ids) radius2 pnt idList =
     (if outMinDst2 (Leaf mn mx db n ids) pnt > radius2 then idList
      else if maximDist2 (Leaf mn mx db n ids) pnt \<le> radius2
      then idList @ ExportAllPointIds (Leaf mn mx db n ids)
      else idList @
           filter (\<lambda>pointIndex. Distance2BetweenPoints (GetPoint pts pointIndex) pnt \<le> radius2)
             (take (nat n) ids))"
| "FindPointsWithinSquaredRadius_node pts (Internal mn mx db n cs) radius2 pnt idList =
     (if outMinDst2 (Internal mn mx db n cs) pnt > radius2 then idList
      else if maximDist2 (Internal mn mx db n cs) pnt \<le> radius2
      then idList @ ExportAllPointIds (Internal mn mx db n cs)
      else fold (\<lambda>c acc. FindPointsWithinSquaredRadius_node pts c radius2 pnt acc) cs idList)"

text \<open>
  The two entry points reset the result list, call \<^verbatim>\<open>BuildLocator\<close> and start at the root
  pointer, whose bounds the first statement of the recursion reads.
\<close>

definition FindPointsWithinSquaredRadius ::
  "svtkIncrementalOctreePointLocator \<Rightarrow> real \<Rightarrow> point \<Rightarrow> svtkIdType list
     \<Rightarrow> error + svtkIdType list" where
  "FindPointsWithinSquaredRadius l0 R2 x result =
     (case BuildLocator l0 of
        Inl e \<Rightarrow> Inl e
      | Inr l \<Rightarrow>
          (case OctreeRootNode l of
             None \<Rightarrow> Inl NullPointerDereference
           | Some rt \<Rightarrow>
               (case LocatorPoints l of
                  None \<Rightarrow> Inl NullPointerDereference
                | Some pts \<Rightarrow> Inr (FindPointsWithinSquaredRadius_node pts rt R2 x []))))"

definition FindPointsWithinRadius ::
  "svtkIncrementalOctreePointLocator \<Rightarrow> real \<Rightarrow> point \<Rightarrow> svtkIdType list
     \<Rightarrow> error + svtkIdType list" where
  "FindPointsWithinRadius l0 R x result = FindPointsWithinSquaredRadius l0 (R * R) x result"



subsubsection \<open>The closest N points\<close>

text \<open>
  The search for the start node of \<^verbatim>\<open>FindClosestNPoints\<close>. \<open>closest_child\<close> is the loop over
  the eight children of \<open>theParent\<close> that moves \<open>pThisNode\<close> to the child closest in terms of
  data, and leaves it where it is when no child is closer than the sentinel.
  \<open>descend_inside\<close> and \<open>descend_outside\<close> are the two inner \<^verbatim>\<open>while\<close> loops and
  \<open>FindStartNode\<close> is the outer loop on \<open>(pThisNode, theParent, numPoints)\<close>; the last two
  need not end, which is the value \<open>None\<close>.
\<close>

definition closest_child ::
  "svtkIncrementalOctreeNode \<Rightarrow> point \<Rightarrow> node_ptr \<Rightarrow> node_ptr \<Rightarrow> node_ptr" where
  "closest_child rt x theParent pThisNode =
     snd (fold (\<lambda>pTheChild (miniDist2, this).
                  let tempDist2 = GetDistance2ToBoundary (snd pTheChild) x rt True
                  in if tempDist2 < miniDist2 then (tempDist2, pTheChild) else (miniDist2, this))
            (GetChildren theParent) (SVTK_DOUBLE_MAX, pThisNode))"

function descend_inside ::
  "point \<Rightarrow> int \<Rightarrow> node_ptr \<Rightarrow> node_ptr \<Rightarrow> int \<Rightarrow> node_ptr \<times> node_ptr \<times> int" where
  "descend_inside x N (path, Leaf mn mx db n ids) theParent numPoints =
     ((path, Leaf mn mx db n ids), theParent, numPoints)"
| "descend_inside x N (path, Internal mn mx db n cs) theParent numPoints =
     (if numPoints > N then
        (let k = GetChildIndex (Internal mn mx db n cs) x
         in if k < length cs
            then descend_inside x N (path @ [k], cs ! k) (path, Internal mn mx db n cs)
                   (NumberOfPoints (cs ! k))
            else ((path, Internal mn mx db n cs), theParent, numPoints))
      else ((path, Internal mn mx db n cs), theParent, numPoints))"
  by pat_completeness auto
termination
  by (relation "measure (\<lambda>(x, N, ptr, theParent, numPoints). size (snd ptr))")
     (auto simp: less_Suc_eq_le intro!: size_list_estimation' [OF nth_mem])

partial_function (option) descend_outside ::
  "svtkIncrementalOctreeNode \<Rightarrow> point \<Rightarrow> int \<Rightarrow> node_ptr \<Rightarrow> node_ptr \<Rightarrow> int
     \<Rightarrow> (node_ptr \<times> node_ptr \<times> int) option" where
  "descend_outside rt x N pThisNode theParent numPoints =
     (if \<not> IsLeaf (snd pThisNode) \<and> numPoints > N
      then descend_outside rt x N (closest_child rt x pThisNode pThisNode) pThisNode
             (NumberOfPoints (snd (closest_child rt x pThisNode pThisNode)))
      else Some (pThisNode, theParent, numPoints))"

partial_function (option) FindStartNode ::
  "svtkIncrementalOctreeNode \<Rightarrow> point \<Rightarrow> int \<Rightarrow> node_ptr \<Rightarrow> node_ptr \<Rightarrow> int
     \<Rightarrow> node_ptr option" where
  "FindStartNode rt x N pThisNode theParent numPoints =
     (if ContainsPoint (snd pThisNode) x then
        (case descend_inside x N pThisNode theParent numPoints of
           (this1, parent1, num1) \<Rightarrow>
             if num1 \<noteq> 0 then Some (if num1 \<ge> N then this1 else parent1)
             else FindStartNode rt x N (closest_child rt x parent1 this1) parent1
                    (NumberOfPoints (snd (closest_child rt x parent1 this1))))
      else
        (case descend_outside rt x N pThisNode theParent numPoints of
           None \<Rightarrow> None
         | Some (this1, parent1, num1) \<Rightarrow> Some (if num1 \<ge> N then this1 else parent1)))"

text \<open>
  The points of a node go to the sorter: the first \<open>numPoints\<close> entries of the exported id
  list, each with its squared distance to \<open>x\<close>.
\<close>

definition insert_node_points ::
  "point list \<Rightarrow> point \<Rightarrow> svtkIncrementalOctreeNode \<Rightarrow> SortPoints \<Rightarrow> SortPoints" where
  "insert_node_points pts x node ptsSorter =
     fold (\<lambda>pointIndx s. InsertPoint s (Distance2BetweenPoints x (GetPoint pts pointIndx)) pointIndx)
       (take (nat (NumberOfPoints node)) (ExportAllPointIds node)) ptsSorter"

text \<open>The loop over the queue of nodes, the front of the queue first.\<close>

definition knn_suspect ::
  "svtkIncrementalOctreeNode \<Rightarrow> point \<Rightarrow> real \<Rightarrow> node_ptr \<Rightarrow> bool" where
  "knn_suspect rt x maxiDist2 pTheChild =
     (ContainsPointByData (snd pTheChild) x \<or>
      GetDistance2ToBoundary (snd pTheChild) x rt True < maxiDist2)"

function knn_loop ::
  "point list \<Rightarrow> svtkIncrementalOctreeNode \<Rightarrow> point \<Rightarrow> nat list \<Rightarrow> node_ptr list \<Rightarrow> SortPoints
     \<Rightarrow> real \<Rightarrow> SortPoints" where
  "knn_loop pts rt x startNode [] ptsSorter maxiDist2 = ptsSorter"
| "knn_loop pts rt x startNode (pThisNode # nodeQueue) ptsSorter maxiDist2 =
     (if fst pThisNode = startNode then knn_loop pts rt x startNode nodeQueue ptsSorter maxiDist2
      else if \<not> IsLeaf (snd pThisNode) then
        knn_loop pts rt x startNode
          (nodeQueue @ filter (knn_suspect rt x maxiDist2) (GetChildren pThisNode))
          ptsSorter maxiDist2
      else if GetDistance2ToBoundary (snd pThisNode) x rt True < maxiDist2 then
        knn_loop pts rt x startNode nodeQueue
          (insert_node_points pts x (snd pThisNode) ptsSorter)
          (GetLargestDist2 (insert_node_points pts x (snd pThisNode) ptsSorter))
      else knn_loop pts rt x startNode nodeQueue ptsSorter maxiDist2)"
  by pat_completeness auto
termination
proof (relation "measure (\<lambda>(pts, rt, x, startNode, q, ptsSorter, maxiDist2).
          sum_list (map (\<lambda>c. Suc (size (snd c))) q))", goal_cases)
  case 1
  show ?case by simp
next
  case 2
  then show ?case by simp
next
  case (3 pts rt x startNode pThisNode nodeQueue ptsSorter maxiDist2)
  obtain path nd where c: "pThisNode = (path, nd)" by (cases pThisNode)
  from 3 obtain mn mx db n cs where nd: "nd = Internal mn mx db n cs"
    using c by (cases nd) auto
  have "sum_list (map (\<lambda>c. Suc (size (snd c)))
          (filter (knn_suspect rt x maxiDist2) (GetChildren pThisNode)))
        \<le> sum_list (map (\<lambda>c. Suc (size (snd c))) (GetChildren pThisNode))"
    by (rule filter_size_le)
  also have "\<dots> < Suc (size nd)" unfolding c nd by (rule children_size)
  finally show ?case using c by (simp del: GetChildren.simps)
next
  case 4
  then show ?case by simp
next
  case 5
  then show ?case by simp
qed

definition FindClosestNPoints ::
  "svtkIncrementalOctreePointLocator \<Rightarrow> int \<Rightarrow> point \<Rightarrow> svtkIdType list
     \<Rightarrow> error + svtkIdType list" where
  "FindClosestNPoints l0 N0 x result =
     (case BuildLocator l0 of
        Inl e \<Rightarrow> Inl e
      | Inr l \<Rightarrow>
          (case OctreeRootNode l of
             None \<Rightarrow> Inl NullPointerDereference
           | Some rt \<Rightarrow>
               (let totalPnts = NumberOfPoints rt;
                    N = (if N0 > totalPnts then totalPnts else N0)
                in if N \<le> 0 then Inr []
                   else
                     (case LocatorPoints l of
                        None \<Rightarrow> Inl NullPointerDereference
                      | Some pts \<Rightarrow>
                          (case FindStartNode rt x N ([], rt) ([], rt) (NumberOfPoints rt) of
                             None \<Rightarrow> Inl EndlessLoop
                           | Some startNode \<Rightarrow>
                               (let ptsSorter =
                                      insert_node_points pts x (snd startNode) (SortPoints_new N)
                                in Inr (GetSortedIds
                                          (knn_loop pts rt x (fst startNode) [([], rt)] ptsSorter
                                             (GetLargestDist2 ptsSorter)))))))))"

subsubsection \<open>Duplicate detection\<close>





subsubsection \<open>The representation of a level\<close>

text \<open>
  \<^verbatim>\<open>GenerateRepresentation\<close>: \<open>level_nodes\<close> is the loop over the queue of pairs that fills
  \<open>nodesList\<close>; \<open>AddPolys\<close> appends the eight corners and the six quads of a node to the
  points and the cells. Without a root the function reports an error and leaves the
  output untouched, which is \<open>None\<close>.
\<close>

function level_nodes :: "int \<Rightarrow> (node_ptr \<times> int) list \<Rightarrow> node_ptr list \<Rightarrow> node_ptr list" where
  "level_nodes nodeLevel [] nodesList = nodesList"
| "level_nodes nodeLevel ((pTempNode, tempLevel) # pairQueue) nodesList =
     (if tempLevel = nodeLevel then level_nodes nodeLevel pairQueue (nodesList @ [pTempNode])
      else if \<not> IsLeaf (snd pTempNode) then
        level_nodes nodeLevel
          (pairQueue @ map (\<lambda>c. (c, nodeLevel + 1)) (GetChildren pTempNode)) nodesList
      else level_nodes nodeLevel pairQueue nodesList)"
  by pat_completeness auto
termination
proof (relation "measure (\<lambda>(nodeLevel, q, nodesList).
          sum_list (map (\<lambda>c. Suc (size (snd (fst c)))) q))", goal_cases)
  case 1
  show ?case by simp
next
  case 2
  then show ?case by simp
next
  case (3 nodeLevel pTempNode tempLevel pairQueue nodesList)
  obtain path nd where c: "pTempNode = (path, nd)" by (cases pTempNode)
  from 3 obtain mn mx db n cs where nd: "nd = Internal mn mx db n cs"
    using c by (cases nd) auto
  have "sum_list (map (\<lambda>c. Suc (size (snd c))) (GetChildren pTempNode)) < Suc (size nd)"
    unfolding c nd by (rule children_size)
  then show ?case using c by (simp add: comp_def del: GetChildren.simps)
next
  case 4
  then show ?case by simp
qed

definition OCTREE_NODE_FACES_LUT :: "nat list list" where
  "OCTREE_NODE_FACES_LUT =
     [[0, 1, 5, 4], [0, 4, 6, 2], [6, 7, 3, 2], [1, 3, 7, 5], [2, 3, 1, 0], [4, 5, 7, 6]]"

definition AddPolys ::
  "svtkIncrementalOctreeNode \<Rightarrow> point list \<times> svtkIdType list list
     \<Rightarrow> point list \<times> svtkIdType list list" where
  "AddPolys node out =
     (case out of
        (points, polygs) \<Rightarrow>
          (let bounds = Node_GetBounds node;
               pntIds = map (\<lambda>i. int (length points + i)) [0..<8]
           in (points @ map (\<lambda>i::nat. [bounds ! (i AND 1), bounds ! (i AND 2), bounds ! (i AND 4)])
                          [0..<8],
               polygs @ map (\<lambda>face. map (\<lambda>j. pntIds ! j) face) OCTREE_NODE_FACES_LUT)))"

definition GenerateRepresentation ::
  "svtkIncrementalOctreePointLocator \<Rightarrow> int \<Rightarrow> (point list \<times> svtkIdType list list) option" where
  "GenerateRepresentation l nodeLevel =
     (case OctreeRootNode l of
        None \<Rightarrow> None
      | Some rt \<Rightarrow>
          Some (fold (\<lambda>n out. AddPolys (snd n) out)
                  (level_nodes nodeLevel [(([], rt), 0)] []) ([], [])))"



text \<open>
  Claim C10. Without a root node \<^verbatim>\<open>GetBounds\<close> leaves the caller's array as it was.
\<close>

theorem GetBounds_no_root_unchanged:
  "OctreeRootNode l = None \<Longrightarrow> GetBounds l bounds = bounds"
  by (simp add: GetBounds_def)

theorem GetBounds_no_root_unchanged_witness:
  "OctreeRootNode (New 0 None 0 0 0) = None \<and>
   GetBounds (New 0 None 0 0 0) [1, 2, 3, 4, 5, 6] = [1, 2, 3, 4, 5, 6]"
proof -
  have h: "OctreeRootNode (New 0 None 0 0 0) = None" by (simp add: New_def)
  show ?thesis using h GetBounds_no_root_unchanged [OF h, of "[1, 2, 3, 4, 5, 6]"] by simp
qed

lemma MaxDimSize_eq:
  "MaxDimSize bounds = max 0 (max (dimDiff0 bounds 0) (max (dimDiff0 bounds 1) (dimDiff0 bounds 2)))"
  by (simp add: MaxDimSize_def max_def)

lemma root_box_axes:
  assumes "InitPointInsertion l (Some pts) bounds = (l', r)"
  shows "OctreeRootNode l' =
     Some (Leaf [fst (root_axis (BuildCubicOctree l) bounds 0),
                 fst (root_axis (BuildCubicOctree l) bounds 1),
                 fst (root_axis (BuildCubicOctree l) bounds 2)]
                [snd (root_axis (BuildCubicOctree l) bounds 0),
                 snd (root_axis (BuildCubicOctree l) bounds 1),
                 snd (root_axis (BuildCubicOctree l) bounds 2)] None 0 [])"
  using assms by (auto simp: InitPointInsertion_def Let_def SetBounds_def)

theorem InitPointInsertion_root_box:
  assumes "InitPointInsertion l (Some pts) bounds = (l', r)" and "i < 3"
  shows "\<exists>rt. OctreeRootNode l' = Some rt \<and> r = 1 \<and>
     OctreeMaxDimSize l' = MaxDimSize bounds \<and>
     FudgeFactor l' = MaxDimSize bounds / 100000 \<and>
     (case cube_axis (BuildCubicOctree l) (MaxDimSize bounds)
             (bounds ! (2 * i), bounds ! (2 * i + 1), dimDiff0 bounds i) of
        (lo, hi, d) \<Rightarrow>
          if d < MaxDimSize bounds / 10
          then MinBounds rt ! i = lo - (MaxDimSize bounds / 10 - (hi - lo)) \<and>
               MaxBounds rt ! i = hi + (MaxDimSize bounds / 10 - (hi - lo)) \<and>
               MaxBounds rt ! i - MinBounds rt ! i = 2 * (MaxDimSize bounds / 10) - (hi - lo)
          else MinBounds rt ! i = lo - FudgeFactor l' \<and> MaxBounds rt ! i = hi)"
proof -
  from assms(2) have i: "i = 0 \<or> i = 1 \<or> i = 2" by auto
  have f: "FudgeFactor l' = MaxDimSize bounds / 100000" "OctreeMaxDimSize l' = MaxDimSize bounds" "r = 1"
    using assms(1) by (auto simp: InitPointInsertion_def Let_def)
  show ?thesis
    using i root_box_axes[OF assms(1)] f
    by (auto simp: root_axis_def fix_axis_def Let_def split: prod.splits)
qed

lemma slab_example:
  "InitPointInsertion (New 0 None 0 0 0) (Some []) [0, 1, 0, 1, 0, 0] =
     (New 0 None 0 0 0 \<lparr> FudgeFactor := 1 / 100000, OctreeMaxDimSize := 1, InsertTolerance2 := 0,
         LocatorPoints := Some [],
         OctreeRootNode := Some (Leaf [- (1 / 100000), - (1 / 100000), - (1 / 10)]
                                      [1, 1, 1 / 10] None 0 []) \<rparr>, 1)"
  by (simp add: InitPointInsertion_def New_def FreeSearchStructure_def MaxDimSize_def dimDiff0_def
      root_axis_def cube_axis_def fix_axis_def SetBounds_def Let_def)

theorem InitPointInsertion_root_box_witness:
  "\<exists>l' rt. InitPointInsertion (New 0 None 0 0 0) (Some []) [0, 1, 0, 1, 0, 0] = (l', 1) \<and>
     (2::nat) < 3 \<and> OctreeRootNode l' = Some rt \<and> FudgeFactor l' = 1 / 100000 \<and>
     MinBounds rt ! 2 = - (1 / 10) \<and> MaxBounds rt ! 2 = 1 / 10 \<and>
     MaxBounds rt ! 2 - MinBounds rt ! 2 = 2 * (1 / 10) - 0"
proof -
  have m: "MaxDimSize [0, 1, 0, 1, 0, 0] = 1" by (simp add: MaxDimSize_def dimDiff0_def)
  have i: "(2::nat) < 3" by simp
  show ?thesis
    using InitPointInsertion_root_box [OF slab_example i] slab_example m
    by (auto simp: cube_axis_def dimDiff0_def New_def)
qed

theorem InitPointInsertion_slab_counterexample:
  "\<exists>l'. InitPointInsertion (New 0 None 0 0 0) (Some []) [0, 1, 0, 1, 0, 0] = (l', 1) \<and>
     OctreeMaxDimSize l' = 1 \<and> FudgeFactor l' = 1 / 100000 \<and>
     OctreeRootNode l' =
       Some (Leaf [- (1 / 100000), - (1 / 100000), - (1 / 10)] [1, 1, 1 / 10] None 0 []) \<and>
     dimDiff0 [0, 1, 0, 1, 0, 0] 2 < 1 / 10 * OctreeMaxDimSize l' \<and>
     (1 / 10 - - (1 / 10) :: real) \<noteq> 1 / 10 * OctreeMaxDimSize l' \<and>
     (- (1 / 10) :: real) \<noteq> 0 - FudgeFactor l'"
  by (simp add: slab_example dimDiff0_def)

text \<open>The two loops that need not end are unfolded by their equations.\<close>

declare descend_outside.simps [code]
declare FindStartNode.simps [code]

subsection \<open>An example tree\<close>

text \<open>
  The locator of scenario S1 with \<open>MaxPointsPerLeaf = 2\<close>: initialised on the unit cube,
  it receives \<open>(0.1, 0.1, 0.1)\<close>, \<open>(0.9, 0.9, 0.9)\<close> and \<open>(0.5, 0.5, 0.5)\<close>; the third
  insertion divides the root.
\<close>

definition example_points :: "point list" where
  "example_points = [[1 / 10, 1 / 10, 1 / 10], [9 / 10, 9 / 10, 9 / 10], [1 / 2, 1 / 2, 1 / 2]]"

definition example_root :: svtkIncrementalOctreeNode where
  "example_root =
     Internal [- (1 / 100000), - (1 / 100000), - (1 / 100000)] [1, 1, 1]
       (Some ([1 / 10, 1 / 10, 1 / 10], [9 / 10, 9 / 10, 9 / 10])) 3
       [Leaf [- (1 / 100000), - (1 / 100000), - (1 / 100000)]
          [99999 / 200000, 99999 / 200000, 99999 / 200000]
          (Some ([1 / 10, 1 / 10, 1 / 10], [1 / 10, 1 / 10, 1 / 10])) 1 [0],
        Leaf [99999 / 200000, - (1 / 100000), - (1 / 100000)]
          [1, 99999 / 200000, 99999 / 200000] None 0 [],
        Leaf [- (1 / 100000), 99999 / 200000, - (1 / 100000)]
          [99999 / 200000, 1, 99999 / 200000] None 0 [],
        Leaf [99999 / 200000, 99999 / 200000, - (1 / 100000)]
          [1, 1, 99999 / 200000] None 0 [],
        Leaf [- (1 / 100000), - (1 / 100000), 99999 / 200000]
          [99999 / 200000, 99999 / 200000, 1] None 0 [],
        Leaf [99999 / 200000, - (1 / 100000), 99999 / 200000]
          [1, 99999 / 200000, 1] None 0 [],
        Leaf [- (1 / 100000), 99999 / 200000, 99999 / 200000]
          [99999 / 200000, 1, 1] None 0 [],
        Leaf [99999 / 200000, 99999 / 200000, 99999 / 200000] [1, 1, 1]
          (Some ([1 / 2, 1 / 2, 1 / 2], [9 / 10, 9 / 10, 9 / 10])) 2 [1, 2]]"

definition example_locator :: svtkIncrementalOctreePointLocator where
  "example_locator =
     \<lparr> FudgeFactor = 1 / 100000, OctreeMaxDimSize = 1, BuildCubicOctree = 0,
       MaxPointsPerLeaf = 2, InsertTolerance2 = 1 / 100, LocatorPoints = Some example_points,
       OctreeRootNode = Some example_root, Tolerance = 1 / 10, DataSet = None,
       BuildTime = 0, MTime = 0, DataSetMTime = 0 \<rparr>"

subsection \<open>Queries without a tree\<close>

text \<open>
  Claim C5. On a locator that has no root and no data set, \<^verbatim>\<open>FindClosestPoint\<close> returns
  \<open>-1\<close>, but \<^verbatim>\<open>FindClosestNPoints\<close>, the two searches for the points within a radius and
  \<^verbatim>\<open>FindClosestPointWithinRadius\<close> dereference the null root.
\<close>

theorem queries_without_root:
  "FindClosestPoint (New 0 None 0 0 0) [0, 0, 0] = Inr (- 1, 0) \<and>
   FindClosestNPoints (New 0 None 0 0 0) 1 [0, 0, 0] [] = Inl NullPointerDereference \<and>
   FindPointsWithinSquaredRadius (New 0 None 0 0 0) 1 [0, 0, 0] [] = Inl NullPointerDereference \<and>
   FindPointsWithinRadius (New 0 None 0 0 0) 1 [0, 0, 0] [] = Inl NullPointerDereference \<and>
   FindClosestPointWithinRadius (New 0 None 0 0 0) 1 [0, 0, 0] = Inl NullPointerDereference"
  by (simp add: FindClosestPoint_def FindClosestNPoints_def FindPointsWithinSquaredRadius_def
      FindPointsWithinRadius_def FindClosestPointWithinRadius_def
      FindClosestPointWithinSquaredRadius_def BuildLocator_def New_def)

subsection \<open>The nodes of a level\<close>

lemma level_nodes_none:
  "nodeLevel \<noteq> 0 \<Longrightarrow> \<forall>e \<in> set q. snd e = 0 \<or> snd e = nodeLevel + 1 \<Longrightarrow>
   level_nodes nodeLevel q acc = acc"
proof (induction nodeLevel q acc rule: level_nodes.induct)
  case (1 nodeLevel nodesList)
  then show ?case by simp
next
  case (2 nodeLevel pTempNode tempLevel pairQueue nodesList)
  from 2(4,5) have ne: "tempLevel \<noteq> nodeLevel" by auto
  show ?case
  proof (cases "IsLeaf (snd pTempNode)")
    case True
    with 2 ne show ?thesis by simp
  next
    case False
    have "\<forall>e\<in>set (pairQueue @ map (\<lambda>c. (c, nodeLevel + 1)) (GetChildren pTempNode)).
            snd e = 0 \<or> snd e = nodeLevel + 1"
      using 2(5) by auto
    with 2(2)[OF ne False 2(4)] ne False show ?thesis by simp
  qed
qed

lemma GenerateRepresentation_empty:
  "nodeLevel \<noteq> 0 \<Longrightarrow> OctreeRootNode l = Some rt \<Longrightarrow> GenerateRepresentation l nodeLevel = Some ([], [])"
  by (simp add: GenerateRepresentation_def level_nodes_none)

text \<open>
  Claim C8. The root of the example tree has eight children, the nodes of depth 1, yet
  for level 1 no node is collected and nothing is emitted: the children enter the queue
  with the level \<open>nodeLevel + 1\<close>. Level 0 gives the root.
\<close>

theorem GenerateRepresentation_level_1:
  "length (GetChildren ([], example_root)) = 8 \<and>
   level_nodes 1 [(([], example_root), 0)] [] = [] \<and>
   GenerateRepresentation example_locator 1 = Some ([], []) \<and>
   level_nodes 0 [(([], example_root), 0)] [] = [([], example_root)]"
proof -
  have r: "OctreeRootNode example_locator = Some example_root" by (simp add: example_locator_def)
  have "level_nodes 1 [(([], example_root), 0)] [] = []" by (rule level_nodes_none) simp_all
  moreover have "GenerateRepresentation example_locator 1 = Some ([], [])"
    using r by (rule GenerateRepresentation_empty [rotated]) simp
  moreover have "length (GetChildren ([], example_root)) = 8" by (simp add: example_root_def)
  ultimately show ?thesis by simp
qed

subsection \<open>A query point outside the root\<close>

text \<open>
  Claim C9. When the query point is outside the box of the root,
  \<^verbatim>\<open>FindClosestInsertedPoint\<close> returns \<open>-1\<close>, whatever the tree holds.
\<close>

theorem FindClosestInsertedPoint_outside:
  "OctreeRootNode l = Some rt \<Longrightarrow> \<not> ContainsPoint rt x \<Longrightarrow> FindClosestInsertedPoint l x = Inr (- 1)"
  by (simp add: FindClosestInsertedPoint_def)

text \<open>
  In the example tree, which holds three points, the point \<open>(2, 2, 2)\<close> is outside the
  root: \<^verbatim>\<open>FindClosestInsertedPoint\<close> gives \<open>-1\<close>, while \<^verbatim>\<open>FindClosestPoint\<close> gives point 1 at the
  squared distance \<open>3 * 1.1\<^sup>2\<close>.
\<close>

theorem FindClosestInsertedPoint_outside_witness:
  "OctreeRootNode example_locator = Some example_root \<and>
   NumberOfPoints example_root = 3 \<and>
   \<not> ContainsPoint example_root [2, 2, 2] \<and>
   FindClosestInsertedPoint example_locator [2, 2, 2] = Inr (- 1) \<and>
   FindClosestPoint example_locator [2, 2, 2] = Inr (1, 363 / 100)"
proof -
  have r: "OctreeRootNode example_locator = Some example_root" by (simp add: example_locator_def)
  have c: "\<not> ContainsPoint example_root [2, 2, 2]"
    by (simp add: ContainsPoint_def in_box_def example_root_def)
  have n: "NumberOfPoints example_root = 3" by (simp add: example_root_def)
  have f: "FindClosestPoint example_locator [2, 2, 2] = Inr (1, 363 / 100)" by code_simp
  show ?thesis using FindClosestInsertedPoint_outside [OF r c] r c n f by simp
qed

lemma example_is_built:
  "(case InsertPointWithoutChecking
           (fst (InitPointInsertion (New (1 / 10) None 0 0 0 \<lparr> MaxPointsPerLeaf := 2 \<rparr>) (Some [])
              [0, 1, 0, 1, 0, 1])) [1 / 10, 1 / 10, 1 / 10] 0 1 of
      Inl e \<Rightarrow> False
    | Inr (l1, i1) \<Rightarrow>
        (case InsertPointWithoutChecking l1 [9 / 10, 9 / 10, 9 / 10] 0 1 of
           Inl e \<Rightarrow> False
         | Inr (l2, i2) \<Rightarrow>
             InsertPointWithoutChecking l2 [1 / 2, 1 / 2, 1 / 2] 0 1 = Inr (example_locator, 2)))"
  by code_simp

subsection \<open>Duplicate detection with a tolerance\<close>




subsection \<open>Points within a radius: correctness\<close>

text \<open>
  The part of the invariants of section 3 that the search needs: a leaf counts its ids,
  and the point of every id below a node lies in the closed box of the node.
\<close>

definition in_closed_box :: "point \<Rightarrow> point \<Rightarrow> point \<Rightarrow> bool" where
  "in_closed_box lo hi p \<longleftrightarrow>
     lo ! 0 \<le> p ! 0 \<and> p ! 0 \<le> hi ! 0 \<and>
     lo ! 1 \<le> p ! 1 \<and> p ! 1 \<le> hi ! 1 \<and>
     lo ! 2 \<le> p ! 2 \<and> p ! 2 \<le> hi ! 2"

fun within_bounds :: "point list \<Rightarrow> svtkIncrementalOctreeNode \<Rightarrow> bool" where
  "within_bounds pts (Leaf mn mx db n ids) =
     (n = int (length ids) \<and> (\<forall>i \<in> set ids. in_closed_box mn mx (GetPoint pts i)))"
| "within_bounds pts (Internal mn mx db n cs) =
     ((\<forall>c \<in> set cs. within_bounds pts c) \<and>
      (\<forall>i \<in> set (concat (map ExportAllPointIds cs)). in_closed_box mn mx (GetPoint pts i)))"

lemma sq_le: "\<bar>a\<bar> \<le> \<bar>b\<bar> \<Longrightarrow> a * a \<le> b * (b::real)"
  using abs_le_square_iff[of a b] by (simp add: power2_eq_square)

lemma axis_minmax_bounds:
  assumes "lo \<le> w" and "w \<le> hi"
  shows "fst (axis_minmax lo hi v) \<le> (w - v) * (w - v)"
    and "(w - v) * (w - v) \<le> snd (axis_minmax lo hi v)"
  using assms by (auto simp: axis_minmax_def Let_def intro!: sq_le)

lemma within_bounds_all:
  "within_bounds pts n \<Longrightarrow> i \<in> set (ExportAllPointIds n) \<Longrightarrow>
   in_closed_box (MinBounds n) (MaxBounds n) (GetPoint pts i)"
  by (cases n) auto

lemma box_dist_bounds:
  assumes "in_closed_box (MinBounds n) (MaxBounds n) p"
  shows "outMinDst2 n x \<le> Distance2BetweenPoints p x"
    and "Distance2BetweenPoints p x \<le> maximDist2 n x"
proof -
  have a: "MinBounds n ! 0 \<le> p ! 0" "p ! 0 \<le> MaxBounds n ! 0"
    "MinBounds n ! 1 \<le> p ! 1" "p ! 1 \<le> MaxBounds n ! 1"
    "MinBounds n ! 2 \<le> p ! 2" "p ! 2 \<le> MaxBounds n ! 2"
    using assms by (simp_all add: in_closed_box_def)
  show "outMinDst2 n x \<le> Distance2BetweenPoints p x"
    using axis_minmax_bounds(1)[OF a(1,2), of "x ! 0"] axis_minmax_bounds(1)[OF a(3,4), of "x ! 1"]
      axis_minmax_bounds(1)[OF a(5,6), of "x ! 2"]
    by (simp add: outMinDst2_def Distance2BetweenPoints_def Node_GetBounds_def)
  show "Distance2BetweenPoints p x \<le> maximDist2 n x"
    using axis_minmax_bounds(2)[OF a(1,2), of "x ! 0"] axis_minmax_bounds(2)[OF a(3,4), of "x ! 1"]
      axis_minmax_bounds(2)[OF a(5,6), of "x ! 2"]
    by (simp add: maximDist2_def Distance2BetweenPoints_def Node_GetBounds_def)
qed

lemma fold_append_results:
  assumes "\<And>c acc. c \<in> set cs \<Longrightarrow> f c acc = acc @ g c"
  shows "fold f cs acc = acc @ concat (map g cs)"
  using assms by (induction cs arbitrary: acc) auto

lemma radius_node_filter:
  "within_bounds pts n \<Longrightarrow>
   FindPointsWithinSquaredRadius_node pts n R2 x acc =
     acc @ filter (\<lambda>i. Distance2BetweenPoints (GetPoint pts i) x \<le> R2) (ExportAllPointIds n)"
proof (induction pts n R2 x acc rule: FindPointsWithinSquaredRadius_node.induct)
  case (1 pts mn mx db n ids radius2 pnt idList)
  let ?n = "Leaf mn mx db n ids"
  have b: "in_closed_box (MinBounds ?n) (MaxBounds ?n) (GetPoint pts i)" if "i \<in> set ids" for i
    using 1 that by simp
  have t: "take (nat n) ids = ids" using 1 by simp
  consider "outMinDst2 ?n pnt > radius2" | "outMinDst2 ?n pnt \<le> radius2" "maximDist2 ?n pnt \<le> radius2"
    | "outMinDst2 ?n pnt \<le> radius2" "\<not> maximDist2 ?n pnt \<le> radius2" by linarith
  then show ?case
  proof cases
    case 1
    have "filter (\<lambda>i. Distance2BetweenPoints (GetPoint pts i) pnt \<le> radius2) ids = []"
      using box_dist_bounds(1)[OF b, of _ pnt] 1 by (fastforce simp: filter_empty_conv)
    with 1 show ?thesis by simp
  next
    case 2
    have "filter (\<lambda>i. Distance2BetweenPoints (GetPoint pts i) pnt \<le> radius2) ids = ids"
      using box_dist_bounds(2)[OF b, of _ pnt] 2 by (fastforce simp: filter_id_conv)
    with 2 show ?thesis by simp
  next
    case 3
    with t show ?thesis by simp
  qed
next
  case (2 pts mn mx db n cs radius2 pnt idList)
  let ?n = "Internal mn mx db n cs"
  let ?all = "concat (map ExportAllPointIds cs)"
  have b: "in_closed_box (MinBounds ?n) (MaxBounds ?n) (GetPoint pts i)" if "i \<in> set ?all" for i
    using 2(2) that by auto
  consider "outMinDst2 ?n pnt > radius2" | "outMinDst2 ?n pnt \<le> radius2" "maximDist2 ?n pnt \<le> radius2"
    | "outMinDst2 ?n pnt \<le> radius2" "\<not> maximDist2 ?n pnt \<le> radius2" by linarith
  then show ?case
  proof cases
    case 1
    have "filter (\<lambda>i. Distance2BetweenPoints (GetPoint pts i) pnt \<le> radius2) ?all = []"
      using box_dist_bounds(1)[OF b, of _ pnt] 1 by (fastforce simp: filter_empty_conv)
    with 1 show ?thesis by simp
  next
    case 2
    have "filter (\<lambda>i. Distance2BetweenPoints (GetPoint pts i) pnt \<le> radius2) ?all = ?all"
      using box_dist_bounds(2)[OF b, of _ pnt] 2 by (fastforce simp: filter_id_conv)
    with 2 show ?thesis by simp
  next
    case 3
    have ih: "FindPointsWithinSquaredRadius_node pts c radius2 pnt a =
        a @ filter (\<lambda>i. Distance2BetweenPoints (GetPoint pts i) pnt \<le> radius2) (ExportAllPointIds c)"
      if "c \<in> set cs" for c a
      using 2(1)[of c a] 2(2) 3 that by simp
    have "fold (\<lambda>c acc. FindPointsWithinSquaredRadius_node pts c radius2 pnt acc) cs idList =
        idList @ concat (map (\<lambda>c. filter (\<lambda>i. Distance2BetweenPoints (GetPoint pts i) pnt \<le> radius2)
                                      (ExportAllPointIds c)) cs)"
      by (rule fold_append_results) (rule ih)
    with 3 show ?thesis by (simp add: filter_concat comp_def)
  qed
qed

text \<open>
  Claim C2. When the tree keeps its points within the boxes and stores every id of the
  container once, the search returns exactly the ids of the points within the squared
  radius of \<open>x\<close>, each of them once.
\<close>

theorem FindPointsWithinSquaredRadius_exact:
  assumes "BuildLocator l0 = Inr l"
    and "OctreeRootNode l = Some rt" and "LocatorPoints l = Some pts"
    and "within_bounds pts rt"
    and "distinct (ExportAllPointIds rt)"
    and "set (ExportAllPointIds rt) = {i. 0 \<le> i \<and> i < int (length pts)}"
  shows "\<exists>out. FindPointsWithinSquaredRadius l0 R2 x result = Inr out \<and> distinct out \<and>
           set out = {i. 0 \<le> i \<and> i < int (length pts) \<and>
                         Distance2BetweenPoints (GetPoint pts i) x \<le> R2}"
proof -
  have "FindPointsWithinSquaredRadius l0 R2 x result =
      Inr (filter (\<lambda>i. Distance2BetweenPoints (GetPoint pts i) x \<le> R2) (ExportAllPointIds rt))"
    using assms(1-4) by (simp add: FindPointsWithinSquaredRadius_def radius_node_filter)
  moreover have "distinct (filter (\<lambda>i. Distance2BetweenPoints (GetPoint pts i) x \<le> R2) (ExportAllPointIds rt))"
    using assms(5) by simp
  moreover have "set (filter (\<lambda>i. Distance2BetweenPoints (GetPoint pts i) x \<le> R2) (ExportAllPointIds rt))
      = {i. 0 \<le> i \<and> i < int (length pts) \<and> Distance2BetweenPoints (GetPoint pts i) x \<le> R2}"
    using assms(6) by auto
  ultimately show ?thesis by blast
qed

text \<open>The example tree: the points within the squared radius 0.5 of \<open>(0.45, 0.45, 0.45)\<close>.\<close>

theorem FindPointsWithinSquaredRadius_exact_witness:
  "BuildLocator example_locator = Inr example_locator \<and>
   within_bounds example_points example_root \<and>
   distinct (ExportAllPointIds example_root) \<and>
   FindPointsWithinSquaredRadius example_locator (1 / 2) [45 / 100, 45 / 100, 45 / 100] [] = Inr [0, 2] \<and>
   (\<exists>out. FindPointsWithinSquaredRadius example_locator (1 / 2) [45 / 100, 45 / 100, 45 / 100] [] = Inr out \<and>
      distinct out \<and>
      set out = {i. 0 \<le> i \<and> i < int (length example_points) \<and>
                    Distance2BetweenPoints (GetPoint example_points i) [45 / 100, 45 / 100, 45 / 100] \<le> 1 / 2})"
proof -
  have b: "BuildLocator example_locator = Inr example_locator"
    by (simp add: BuildLocator_def example_locator_def)
  have r: "OctreeRootNode example_locator = Some example_root" by (simp add: example_locator_def)
  have p: "LocatorPoints example_locator = Some example_points" by (simp add: example_locator_def)
  have w: "within_bounds example_points example_root" by code_simp
  have d: "distinct (ExportAllPointIds example_root)" by code_simp
  have e: "ExportAllPointIds example_root = [0, 1, 2]" by code_simp
  have s: "set (ExportAllPointIds example_root) = {i. 0 \<le> i \<and> i < int (length example_points)}"
    unfolding e by (auto simp: example_points_def)
  have v: "FindPointsWithinSquaredRadius example_locator (1 / 2) [45 / 100, 45 / 100, 45 / 100] [] = Inr [0, 2]"
    by code_simp
  show ?thesis
    using FindPointsWithinSquaredRadius_exact [OF b r p w d s, of "1 / 2" "[45 / 100, 45 / 100, 45 / 100]" "[]"]
      b w d v by simp
qed

subsection \<open>The invariants of the tree\<close>

text \<open>
  The invariants of section 3 of the specification, for the points \<open>pts\<close> of the
  container: a leaf counts its ids; an internal node has the eight octants of its box as
  the boxes of its children and counts the points of its children; the point of every
  id below a node lies in the box of the node, half-open on \<open>min\<close>; and the data box of
  a node contains these points and is empty only when there is none.
\<close>

definition data_ok :: "(point \<times> point) option \<Rightarrow> point list \<Rightarrow> bool" where
  "data_ok db ps =
     (case db of None \<Rightarrow> ps = [] | Some (lo, hi) \<Rightarrow> (\<forall>p \<in> set ps. in_closed_box lo hi p))"

fun octree_inv :: "point list \<Rightarrow> svtkIncrementalOctreeNode \<Rightarrow> bool" where
  "octree_inv pts (Leaf mn mx db n ids) =
     (n = int (length ids) \<and> (\<forall>i \<in> set ids. in_box mn mx (GetPoint pts i)) \<and>
      data_ok db (map (GetPoint pts) ids))"
| "octree_inv pts (Internal mn mx db n cs) =
     (map (\<lambda>c. (MinBounds c, MaxBounds c)) cs = map (child_bounds mn mx) [0..<8] \<and>
      n = sum_list (map NumberOfPoints cs) \<and>
      (\<forall>c \<in> set cs. octree_inv pts c) \<and>
      (\<forall>i \<in> set (concat (map ExportAllPointIds cs)). in_box mn mx (GetPoint pts i)) \<and>
      data_ok db (map (GetPoint pts) (concat (map ExportAllPointIds cs))))"

lemma octree_inv_count:
  "octree_inv pts n \<Longrightarrow> NumberOfPoints n = int (length (ExportAllPointIds n))"
proof (induction n)
  case (Leaf mn mx db n ids)
  then show ?case by simp
next
  case (Internal mn mx db n cs)
  have "sum_list (map NumberOfPoints cs) = (\<Sum>c\<leftarrow>cs. int (length (ExportAllPointIds c)))"
    using Internal by (intro arg_cong[where f = sum_list] map_cong) auto
  also have "\<dots> = int (length (concat (map ExportAllPointIds cs)))"
    by (simp add: length_concat comp_def sum_list_of_nat [symmetric])
  finally show ?case using Internal.prems by simp
qed

lemma octree_inv_in_box:
  "octree_inv pts n \<Longrightarrow> i \<in> set (ExportAllPointIds n) \<Longrightarrow>
   in_box (MinBounds n) (MaxBounds n) (GetPoint pts i)"
  by (cases n) auto

lemma octree_inv_data:
  "octree_inv pts n \<Longrightarrow> data_ok (DataBounds n) (map (GetPoint pts) (ExportAllPointIds n))"
  by (cases n) auto

lemma octree_inv_children:
  "octree_inv pts (Internal mn mx db n cs) \<Longrightarrow> c \<in> set cs \<Longrightarrow> octree_inv pts c"
  by simp

lemma octree_inv_length: "octree_inv pts (Internal mn mx db n cs) \<Longrightarrow> length cs = 8"
proof -
  assume "octree_inv pts (Internal mn mx db n cs)"
  then have "length (map (\<lambda>c. (MinBounds c, MaxBounds c)) cs) = length (map (child_bounds mn mx) [0..<8])"
    by simp
  then show ?thesis by simp
qed

lemma octree_inv_child_bounds:
  assumes "octree_inv pts (Internal mn mx db n cs)" and "k < 8"
  shows "(MinBounds (cs ! k), MaxBounds (cs ! k)) = child_bounds mn mx k"
proof -
  have "map (\<lambda>c. (MinBounds c, MaxBounds c)) cs ! k = map (child_bounds mn mx) [0..<8] ! k"
    using assms(1) by simp
  then show ?thesis using assms octree_inv_length[OF assms(1)] by simp
qed

subsection \<open>The scan of a leaf\<close>

lemma dist2_nonneg: "0 \<le> Distance2BetweenPoints p q"
  by (simp add: Distance2BetweenPoints_def)

lemma leaf_scan_result:
  assumes "leaf_scan pts x ids (i0, d0) = (i, d)"
  shows "d \<le> d0 \<and>
         (\<forall>j \<in> set ids. d \<le> Distance2BetweenPoints (GetPoint pts j) x) \<and>
         ((i = i0 \<and> d = d0) \<or>
          (d < d0 \<and> i \<in> set ids \<and> Distance2BetweenPoints (GetPoint pts i) x = d))"
  using assms
proof (induction ids arbitrary: i0 d0)
  case Nil
  then show ?case by simp
next
  case (Cons j ids)
  define t where "t = Distance2BetweenPoints (GetPoint pts j) x"
  define i1 where "i1 = (if t < d0 then j else i0)"
  define d1 where "d1 = (if t < d0 then t else d0)"
  have nn: "0 \<le> Distance2BetweenPoints (GetPoint pts k) x" for k by (rule dist2_nonneg)
  have step: "leaf_scan pts x (j # ids) (i0, d0) =
      (if d1 = 0 then (i1, d1) else leaf_scan pts x ids (i1, d1))"
    by (simp add: Let_def t_def i1_def d1_def)
  have a: "d1 \<le> d0" "d1 \<le> t" "(i1 = i0 \<and> d1 = d0) \<or> (d1 < d0 \<and> i1 = j \<and> t = d1)"
    by (auto simp: i1_def d1_def)
  show ?case
  proof (cases "d1 = 0")
    case True
    with Cons.prems step have "i = i1" "d = d1" by simp_all
    with a True nn show ?thesis by (auto simp: t_def)
  next
    case False
    with Cons.prems step have "leaf_scan pts x ids (i1, d1) = (i, d)" by simp
    from Cons.IH[OF this] a show ?thesis by (auto simp: t_def)
  qed
qed

lemma FindClosestPointInLeafNode_result:
  assumes "FindClosestPointInLeafNode pts n x = (i, d)"
  shows "d \<le> SVTK_DOUBLE_MAX"
    and "IsLeaf n \<Longrightarrow> \<forall>j \<in> set (ExportAllPointIds n). d \<le> Distance2BetweenPoints (GetPoint pts j) x"
    and "(i = - 1 \<and> d = SVTK_DOUBLE_MAX) \<or>
         (d < SVTK_DOUBLE_MAX \<and> i \<in> set (ExportAllPointIds n) \<and> IsLeaf n \<and>
          Distance2BetweenPoints (GetPoint pts i) x = d)"
proof -
  show "d \<le> SVTK_DOUBLE_MAX"
    using assms leaf_scan_result[of pts x _ "- 1" SVTK_DOUBLE_MAX i d]
    by (cases n) (auto simp: FindClosestPointInLeafNode_def)
  show "\<forall>j \<in> set (ExportAllPointIds n). d \<le> Distance2BetweenPoints (GetPoint pts j) x" if "IsLeaf n"
    using assms that leaf_scan_result[of pts x _ "- 1" SVTK_DOUBLE_MAX i d]
    by (cases n) (auto simp: FindClosestPointInLeafNode_def)
  show "(i = - 1 \<and> d = SVTK_DOUBLE_MAX) \<or>
         (d < SVTK_DOUBLE_MAX \<and> i \<in> set (ExportAllPointIds n) \<and> IsLeaf n \<and>
          Distance2BetweenPoints (GetPoint pts i) x = d)"
    using assms leaf_scan_result[of pts x _ "- 1" SVTK_DOUBLE_MAX i d]
    by (cases n) (auto simp: FindClosestPointInLeafNode_def)
qed

subsection \<open>The distance to the data box is a lower bound\<close>

lemma axis_dist2_lower:
  "lo \<le> w \<Longrightarrow> w \<le> hi \<Longrightarrow> axis_dist2 lo hi rlo rhi v \<le> (w - v) * (w - v)"
  by (auto simp: axis_dist2_def intro!: sq_le)

lemma data_distance_lower:
  assumes "octree_inv pts n" and "DataBounds rt \<noteq> None"
    and "i \<in> set (ExportAllPointIds n)"
  shows "GetDistance2ToBoundary n x rt True \<le> Distance2BetweenPoints (GetPoint pts i) x"
proof -
  from assms(2) obtain rlo rhi where rt: "DataBounds rt = Some (rlo, rhi)" by auto
  have d: "data_ok (DataBounds n) (map (GetPoint pts) (ExportAllPointIds n))"
    using assms(1) by (rule octree_inv_data)
  with assms(3) obtain lo hi where n: "DataBounds n = Some (lo, hi)"
    by (cases "DataBounds n") (auto simp: data_ok_def)
  have b: "in_closed_box lo hi (GetPoint pts i)" using d n assms(3) by (auto simp: data_ok_def)
  have c: "NumberOfPoints n \<noteq> 0" using octree_inv_count[OF assms(1)] assms(3) by auto
  let ?p = "GetPoint pts i"
  have "axis_dist2 (lo ! 0) (hi ! 0) (rlo ! 0) (rhi ! 0) (x ! 0) \<le> (?p ! 0 - x ! 0) * (?p ! 0 - x ! 0)"
    "axis_dist2 (lo ! 1) (hi ! 1) (rlo ! 1) (rhi ! 1) (x ! 1) \<le> (?p ! 1 - x ! 1) * (?p ! 1 - x ! 1)"
    "axis_dist2 (lo ! 2) (hi ! 2) (rlo ! 2) (rhi ! 2) (x ! 2) \<le> (?p ! 2 - x ! 2) * (?p ! 2 - x ! 2)"
    using b by (auto simp: in_closed_box_def intro!: axis_dist2_lower)
  then show ?thesis
    using c n rt by (simp add: GetDistance2ToBoundary_def chosen_box_def Distance2BetweenPoints_def)
qed

subsection \<open>The search in the sphere\<close>

text \<open>
  The ids that the search can reach from a node of the stack: those below the node that
  are not below a child whose pointer is the mask.
\<close>

function unmasked_ids :: "nat list option \<Rightarrow> nat list \<Rightarrow> svtkIncrementalOctreeNode \<Rightarrow> svtkIdType list" where
  "unmasked_ids msk path (Leaf mn mx db n ids) = ids"
| "unmasked_ids msk path (Internal mn mx db n cs) =
     concat (map (\<lambda>j. if Some (path @ [j]) = msk then []
                       else unmasked_ids msk (path @ [j]) (cs ! j)) [0..<length cs])"
  by pat_completeness auto
termination
  by (relation "measure (\<lambda>(msk, path, n). size n)")
     (auto simp: less_Suc_eq_le intro!: size_list_estimation' [OF nth_mem])

lemma unmasked_subset: "set (unmasked_ids msk path n) \<subseteq> set (ExportAllPointIds n)"
proof (induction msk path n rule: unmasked_ids.induct)
  case (1 msk path mn mx db n ids)
  then show ?case by simp
next
  case (2 msk path mn mx db n cs)
  show ?case
  proof
    fix i assume "i \<in> set (unmasked_ids msk path (Internal mn mx db n cs))"
    then obtain j where j: "j < length cs" "Some (path @ [j]) \<noteq> msk"
      "i \<in> set (unmasked_ids msk (path @ [j]) (cs ! j))"
      by (auto split: if_splits)
    with 2[of j] have "i \<in> set (ExportAllPointIds (cs ! j))" by auto
    with j(1) show "i \<in> set (ExportAllPointIds (Internal mn mx db n cs))"
      by (auto intro!: bexI[of _ "cs ! j"])
  qed
qed

lemma GetChildren_set:
  "c \<in> set (GetChildren (path, Internal mn mx db n cs)) \<longleftrightarrow>
   (\<exists>j < length cs. c = (path @ [j], cs ! j))"
  by auto

lemma unmasked_children:
  assumes "i \<in> set (unmasked_ids msk path (Internal mn mx db n cs))"
  shows "\<exists>c \<in> set (GetChildren (path, Internal mn mx db n cs)).
           Some (fst c) \<noteq> msk \<and> i \<in> set (unmasked_ids msk (fst c) (snd c))"
proof -
  from assms obtain j where j: "j < length cs" "Some (path @ [j]) \<noteq> msk"
    "i \<in> set (unmasked_ids msk (path @ [j]) (cs ! j))"
    by (auto split: if_splits)
  then show ?thesis by (intro bexI[of _ "(path @ [j], cs ! j)"]) auto
qed

lemma children_ids:
  "c \<in> set (GetChildren (path, Internal mn mx db n cs)) \<Longrightarrow>
   set (ExportAllPointIds (snd c)) \<subseteq> set (ExportAllPointIds (Internal mn mx db n cs))"
  by (auto intro!: bexI[OF _ nth_mem])

lemma children_inv:
  "octree_inv pts (snd p) \<Longrightarrow> c \<in> set (GetChildren p) \<Longrightarrow> octree_inv pts (snd c)"
  by (cases p, cases "snd p") auto

definition stack_ids :: "node_ptr list \<Rightarrow> svtkIdType set" where
  "stack_ids st = (\<Union>c \<in> set st. set (ExportAllPointIds (snd c)))"

lemma sphere_loop_correct:
  assumes "refDist2 = None" and "\<forall>c \<in> set st. octree_inv pts (snd c)" and "DataBounds rt \<noteq> None"
    and "sphere_loop pts rt x radius2 msk refDist2 st m0 idx0 = (idx, m)"
  shows "m \<le> m0 \<and>
         (\<forall>c \<in> set st. \<forall>i \<in> set (unmasked_ids msk (fst c) (snd c)).
             m \<le> Distance2BetweenPoints (GetPoint pts i) x) \<and>
         ((idx = idx0 \<and> m = m0) \<or>
          (m < m0 \<and> ((idx \<in> stack_ids st \<and> Distance2BetweenPoints (GetPoint pts idx) x = m) \<or>
                      (idx = - 1 \<and> m = SVTK_DOUBLE_MAX))))"
  using assms
proof (induction pts rt x radius2 msk refDist2 st m0 idx0 rule: sphere_loop.induct)
  case (1 pts rt pnt radius2 maskNode refDist2 minDist2 pointIndx)
  then show ?case by simp
next
  case (2 pts rt pnt radius2 maskNode refDist2 checkNode nodesBase minDist2 pointIndx)
  note ref = \<open>refDist2 = None\<close>
  note inv = \<open>\<forall>c\<in>set (checkNode # nodesBase). octree_inv pts (snd c)\<close>
  note rtd = \<open>DataBounds rt \<noteq> None\<close>
  note res = \<open>sphere_loop pts rt pnt radius2 maskNode refDist2 (checkNode # nodesBase) minDist2 pointIndx = (idx, m)\<close>
  let ?d = "\<lambda>i. Distance2BetweenPoints (GetPoint pts i) pnt"
  show ?case
  proof (cases "minDist2 > 0")
    case False
    with res have "idx = pointIndx" "m = minDist2" by simp_all
    moreover have "m \<le> ?d i" for i using False \<open>m = minDist2\<close> dist2_nonneg[of "GetPoint pts i" pnt] by simp
    ultimately show ?thesis by simp
  next
    case pos: True
    show ?thesis
    proof (cases "IsLeaf (snd checkNode)")
      case False
      obtain path nd where c: "checkNode = (path, nd)" by (cases checkNode)
      from False c obtain mn mx db n cs where nd: "nd = Internal mn mx db n cs" by (cases nd) auto
      let ?ch = "filter (sphere_suspect rt pnt radius2 maskNode minDist2) (GetChildren checkNode)"
      let ?st = "rev ?ch @ nodesBase"
      have res': "sphere_loop pts rt pnt radius2 maskNode refDist2 ?st minDist2 pointIndx = (idx, m)"
        using res pos False ref by simp
      have inv': "\<forall>c\<in>set ?st. octree_inv pts (snd c)"
        using inv children_inv[of pts checkNode] by auto
      have IH: "m \<le> minDist2 \<and>
         (\<forall>c \<in> set ?st. \<forall>i \<in> set (unmasked_ids maskNode (fst c) (snd c)). m \<le> ?d i) \<and>
         ((idx = pointIndx \<and> m = minDist2) \<or>
          (m < minDist2 \<and> ((idx \<in> stack_ids ?st \<and> ?d idx = m) \<or> (idx = - 1 \<and> m = SVTK_DOUBLE_MAX))))"
        using "2.IH"(1)[OF _ False ref _ rtd] pos inv' res' ref by simp
      have sub: "stack_ids ?st \<subseteq> stack_ids (checkNode # nodesBase)"
        using children_ids[of _ path mn mx db n cs] unfolding stack_ids_def c nd by auto
      have top: "m \<le> ?d i" if i: "i \<in> set (unmasked_ids maskNode (fst checkNode) (snd checkNode))" for i
      proof -
        from i have "\<exists>ch \<in> set (GetChildren checkNode). Some (fst ch) \<noteq> maskNode \<and>
            i \<in> set (unmasked_ids maskNode (fst ch) (snd ch))"
          unfolding c nd fst_conv snd_conv by (rule unmasked_children)
        then obtain ch where ch: "ch \<in> set (GetChildren checkNode)" "Some (fst ch) \<noteq> maskNode"
          "i \<in> set (unmasked_ids maskNode (fst ch) (snd ch))"
          by blast
        show ?thesis
        proof (cases "sphere_suspect rt pnt radius2 maskNode minDist2 ch")
          case True
          with ch have "ch \<in> set ?st" by simp
          with IH ch(3) show ?thesis by blast
        next
          case False
          have chinv: "octree_inv pts (snd ch)" using inv ch(1) children_inv[of pts checkNode ch] by simp
          have iall: "i \<in> set (ExportAllPointIds (snd ch))" using ch(3) unmasked_subset by blast
          then have ne: "NumberOfPoints (snd ch) \<noteq> 0" using octree_inv_count[OF chinv] by auto
          have "GetDistance2ToBoundary (snd ch) pnt rt True \<le> ?d i"
            using chinv rtd iall by (rule data_distance_lower)
          moreover have "\<not> GetDistance2ToBoundary (snd ch) pnt rt True \<le> minDist2"
            using False ch(2) ne by (simp add: sphere_suspect_def Let_def)
          ultimately show ?thesis using IH by linarith
        qed
      qed
      show ?thesis using IH top sub by auto
    next
      case True
      obtain tempPntId tempDist2 where f: "FindClosestPointInLeafNode pts (snd checkNode) pnt = (tempPntId, tempDist2)"
        by (cases "FindClosestPointInLeafNode pts (snd checkNode) pnt")
      note fr = FindClosestPointInLeafNode_result[OF f]
      have leafb: "\<forall>j \<in> set (ExportAllPointIds (snd checkNode)). tempDist2 \<le> ?d j"
        using fr(2)[OF True] .
      have um: "set (unmasked_ids maskNode (fst checkNode) (snd checkNode)) \<subseteq> set (ExportAllPointIds (snd checkNode))"
        by (rule unmasked_subset)
      have inv': "\<forall>c\<in>set nodesBase. octree_inv pts (snd c)" using inv by simp
      have sub: "stack_ids nodesBase \<subseteq> stack_ids (checkNode # nodesBase)"
        unfolding stack_ids_def by auto
      show ?thesis
      proof (cases "tempDist2 < minDist2")
        case lt: True
        have res': "sphere_loop pts rt pnt radius2 maskNode refDist2 nodesBase tempDist2 tempPntId = (idx, m)"
          using res pos True f lt by simp
        have IH: "m \<le> tempDist2 \<and>
           (\<forall>c \<in> set nodesBase. \<forall>i \<in> set (unmasked_ids maskNode (fst c) (snd c)). m \<le> ?d i) \<and>
           ((idx = tempPntId \<and> m = tempDist2) \<or>
            (m < tempDist2 \<and> ((idx \<in> stack_ids nodesBase \<and> ?d idx = m) \<or> (idx = - 1 \<and> m = SVTK_DOUBLE_MAX))))"
          using "2.IH"(2)[of tempPntId tempDist2] pos True f lt ref inv' rtd res' by simp
        have here: "tempPntId \<in> stack_ids (checkNode # nodesBase) \<and> ?d tempPntId = tempDist2"
          if "tempDist2 < SVTK_DOUBLE_MAX"
          using fr(3) that unfolding stack_ids_def by auto
        have alt: "(tempPntId = - 1 \<and> tempDist2 = SVTK_DOUBLE_MAX) \<or> tempDist2 < SVTK_DOUBLE_MAX"
          using fr(3) by auto
        show ?thesis using IH leafb um sub lt here alt by (auto; force)
      next
        case ge: False
        have res': "sphere_loop pts rt pnt radius2 maskNode refDist2 nodesBase minDist2 pointIndx = (idx, m)"
          using res pos True f ge by simp
        have IH: "m \<le> minDist2 \<and>
           (\<forall>c \<in> set nodesBase. \<forall>i \<in> set (unmasked_ids maskNode (fst c) (snd c)). m \<le> ?d i) \<and>
           ((idx = pointIndx \<and> m = minDist2) \<or>
            (m < minDist2 \<and> ((idx \<in> stack_ids nodesBase \<and> ?d idx = m) \<or> (idx = - 1 \<and> m = SVTK_DOUBLE_MAX))))"
          using "2.IH"(3)[of tempPntId tempDist2] pos True f ge ref inv' rtd res' by simp
        show ?thesis using IH leafb um sub ge by (auto; force)
      qed
    qed
  qed
qed

subsection \<open>Children, child index and the leaf container\<close>

definition kbit :: "nat \<Rightarrow> nat \<Rightarrow> bool" where
  "kbit k a = ((k div 2 ^ a) mod 2 = 1)"

lemma three_cases: "a < 3 \<Longrightarrow> a = 0 \<or> a = 1 \<or> a = (2::nat)"
  by auto

lemma child_bounds_axis:
  assumes "a < 3"
  shows "fst (child_bounds mn mx k) ! a = (if kbit k a then MidPoint mn mx ! a else mn ! a)"
    and "snd (child_bounds mn mx k) ! a = (if kbit k a then mx ! a else MidPoint mn mx ! a)"
  using three_cases[OF assms] by (auto simp: child_bounds_def kbit_def Let_def)

lemma ChildIndex_less: "ChildIndex mn mx p < 8"
  by (simp add: ChildIndex_def)

lemma ChildIndex_bit:
  assumes "a < 3"
  shows "kbit (ChildIndex mn mx p) a \<longleftrightarrow> p ! a > MidPoint mn mx ! a"
  using three_cases[OF assms] by (auto simp: ChildIndex_def kbit_def)

lemma kbit_value:
  assumes "n < 8"
  shows "n = (if kbit n 0 then 1 else 0) + (if kbit n 1 then 2 else 0) + (if kbit n 2 then 4 else 0)"
proof -
  from assms have "n \<in> {0, 1, 2, 3, 4, 5, 6, 7}" by auto
  then show ?thesis by (auto simp: kbit_def)
qed

lemma kbit_differ:
  assumes "j < 8" and "k < 8" and "j \<noteq> k"
  shows "\<exists>a < 3. kbit j a \<noteq> kbit k a"
proof (rule ccontr)
  assume "\<not> ?thesis"
  then have "kbit j 0 = kbit k 0" "kbit j 1 = kbit k 1" "kbit j 2 = kbit k 2" by auto
  then have "j = k" using kbit_value[OF assms(1)] kbit_value[OF assms(2)] by simp
  with assms(3) show False by simp
qed

lemma all3: "(\<forall>a < 3. P a) \<longleftrightarrow> P 0 \<and> P 1 \<and> P (2::nat)"
proof
  assume "\<forall>a<3. P a"
  then show "P 0 \<and> P 1 \<and> P 2" by simp
next
  assume "P 0 \<and> P 1 \<and> P 2"
  then show "\<forall>a<3. P a" using three_cases by blast
qed

lemma ex3: "(\<exists>a < 3. P a) \<longleftrightarrow> P 0 \<or> P 1 \<or> P (2::nat)"
  using all3[of "\<lambda>a. \<not> P a"] by blast

lemma in_box_axis: "in_box lo hi p \<longleftrightarrow> (\<forall>a < 3. lo ! a < p ! a \<and> p ! a \<le> hi ! a)"
  unfolding all3 in_box_def by blast

lemma MidPoint_axis: "a < 3 \<Longrightarrow> MidPoint mn mx ! a = (mn ! a + mx ! a) / 2"
  using three_cases[of a] by (auto simp: MidPoint_def)

text \<open>A point of the box of a node is in the box of the child that its index selects.\<close>

lemma in_child_box:
  assumes "in_box mn mx x"
  shows "in_box (fst (child_bounds mn mx (ChildIndex mn mx x)))
           (snd (child_bounds mn mx (ChildIndex mn mx x))) x"
  unfolding in_box_axis[of "fst (child_bounds mn mx (ChildIndex mn mx x))"]
proof (intro allI impI)
  fix a :: nat assume a: "a < 3"
  have "mn ! a < x ! a" "x ! a \<le> mx ! a" using assms a by (auto simp: in_box_axis)
  then show "fst (child_bounds mn mx (ChildIndex mn mx x)) ! a < x ! a \<and>
      x ! a \<le> snd (child_bounds mn mx (ChildIndex mn mx x)) ! a"
    using ChildIndex_bit[OF a, of mn mx x]
    by (auto simp: child_bounds_axis[OF a] MidPoint_axis[OF a])
qed

lemma descent_path:
  fixes x :: point
  assumes "octree_inv pts (Internal mn mx db n cs)"
  defines "k \<equiv> ChildIndex mn mx x"
  shows "k < 8" and "length cs = 8" and "cs ! k \<in> set cs" and "octree_inv pts (cs ! k)"
    and "GetLeafContainer (path, Internal mn mx db n cs) x = GetLeafContainer (path @ [k], cs ! k) x"
proof -
  show k8: "k < 8" unfolding k_def by (rule ChildIndex_less)
  show len: "length cs = 8" using assms(1) by (rule octree_inv_length)
  show cin: "cs ! k \<in> set cs" using k8 len by simp
  show "octree_inv pts (cs ! k)" using assms(1) cin by simp
  show "GetLeafContainer (path, Internal mn mx db n cs) x = GetLeafContainer (path @ [k], cs ! k) x"
    using k8 len by (simp add: GetChildIndex_def Let_def k_def)
qed

lemma leaf_container_path:
  assumes "octree_inv pts n"
  shows "IsLeaf (snd (GetLeafContainer (path, n) x)) \<and>
         prefix path (fst (GetLeafContainer (path, n) x)) \<and>
         (fst (GetLeafContainer (path, n) x) = path \<longrightarrow> GetLeafContainer (path, n) x = (path, n)) \<and>
         octree_inv pts (snd (GetLeafContainer (path, n) x)) \<and>
         set (ExportAllPointIds (snd (GetLeafContainer (path, n) x))) \<subseteq> set (ExportAllPointIds n)"
  using assms
proof (induction n arbitrary: path)
  case (Leaf mn mx db n ids)
  then show ?case by simp
next
  case (Internal mn mx db n cs)
  define k where "k = ChildIndex mn mx x"
  have st: "k < 8" "length cs = 8" "cs ! k \<in> set cs" "octree_inv pts (cs ! k)"
    "GetLeafContainer (path, Internal mn mx db n cs) x = GetLeafContainer (path @ [k], cs ! k) x"
    unfolding k_def by (rule descent_path[OF Internal.prems(1)])+
  define L where "L = GetLeafContainer (path @ [k], cs ! k) x"
  note IH = Internal.IH[OF st(3) st(4), of "path @ [k]", folded L_def]
  have LL: "GetLeafContainer (path, Internal mn mx db n cs) x = L" unfolding L_def by (rule st(5))
  have pre: "prefix (path @ [k]) (fst L)" using IH by simp
  then have p1: "prefix path (fst L)" by (metis append_prefixD)
  have ne: "fst L \<noteq> path" using pre by (auto simp: prefix_def)
  have sub: "set (ExportAllPointIds (snd L)) \<subseteq> set (ExportAllPointIds (Internal mn mx db n cs))"
    using IH st(3) by auto
  show ?case unfolding LL using IH p1 ne sub by (simp del: octree_inv.simps ExportAllPointIds.simps)
qed

lemma descent_step:
  assumes "octree_inv pts (Internal mn mx db n cs)" and "in_box mn mx x"
  defines "k \<equiv> ChildIndex mn mx x"
  shows "k < 8" and "length cs = 8" and "cs ! k \<in> set cs" and "octree_inv pts (cs ! k)"
    and "(MinBounds (cs ! k), MaxBounds (cs ! k)) = child_bounds mn mx k"
    and "in_box (MinBounds (cs ! k)) (MaxBounds (cs ! k)) x"
    and "GetLeafContainer (path, Internal mn mx db n cs) x = GetLeafContainer (path @ [k], cs ! k) x"
proof -
  show k8: "k < 8" unfolding k_def by (rule ChildIndex_less)
  show len: "length cs = 8" using assms(1) by (rule octree_inv_length)
  show cin: "cs ! k \<in> set cs" using k8 len by simp
  show "octree_inv pts (cs ! k)" using assms(1) cin by simp
  show cb: "(MinBounds (cs ! k), MaxBounds (cs ! k)) = child_bounds mn mx k"
    using assms(1) k8 by (rule octree_inv_child_bounds)
  show "in_box (MinBounds (cs ! k)) (MaxBounds (cs ! k)) x"
    using in_child_box[OF assms(2)] cb[symmetric] unfolding k_def by simp
  show "GetLeafContainer (path, Internal mn mx db n cs) x = GetLeafContainer (path @ [k], cs ! k) x"
    using k8 len by (simp add: GetChildIndex_def Let_def k_def)
qed

lemma child_nested:
  assumes "in_box mn mx x" and "a < 3"
  shows "mn ! a \<le> fst (child_bounds mn mx k) ! a" and "snd (child_bounds mn mx k) ! a \<le> mx ! a"
proof -
  have "mn ! a < x ! a" "x ! a \<le> mx ! a" using assms by (auto simp: in_box_axis)
  then show "mn ! a \<le> fst (child_bounds mn mx k) ! a" and "snd (child_bounds mn mx k) ! a \<le> mx ! a"
    by (auto simp: child_bounds_axis[OF assms(2)] MidPoint_axis[OF assms(2)])
qed

lemma leaf_container_basic:
  assumes "octree_inv pts n" and "in_box (MinBounds n) (MaxBounds n) x"
  shows "IsLeaf (snd (GetLeafContainer (path, n) x)) \<and>
         prefix path (fst (GetLeafContainer (path, n) x)) \<and>
         (fst (GetLeafContainer (path, n) x) = path \<longrightarrow> GetLeafContainer (path, n) x = (path, n)) \<and>
         octree_inv pts (snd (GetLeafContainer (path, n) x)) \<and>
         in_box (MinBounds (snd (GetLeafContainer (path, n) x)))
                (MaxBounds (snd (GetLeafContainer (path, n) x))) x \<and>
         (\<forall>a < 3. MinBounds n ! a \<le> MinBounds (snd (GetLeafContainer (path, n) x)) ! a \<and>
                   MaxBounds (snd (GetLeafContainer (path, n) x)) ! a \<le> MaxBounds n ! a)"
  using assms
proof (induction n arbitrary: path)
  case (Leaf mn mx db n ids)
  then show ?case by simp
next
  case (Internal mn mx db n cs)
  define k where "k = ChildIndex mn mx x"
  have xin: "in_box mn mx x" using Internal.prems(2) by simp
  note st = descent_step[OF Internal.prems(1) xin, folded k_def]
  define L where "L = GetLeafContainer (path @ [k], cs ! k) x"
  note IH = Internal.IH[OF st(3) st(4) st(6), of "path @ [k]", folded L_def]
  have LL: "GetLeafContainer (path, Internal mn mx db n cs) x = L" unfolding L_def by (rule st(7))
  have pre: "prefix (path @ [k]) (fst L)" using IH by simp
  then have p1: "prefix path (fst L)" by (metis append_prefixD)
  have ne: "fst L \<noteq> path" using pre by (auto simp: prefix_def)
  have nest: "mn ! a \<le> MinBounds L' ! a \<and> MaxBounds L' ! a \<le> mx ! a"
    if "a < 3" "MinBounds (cs ! k) ! a \<le> MinBounds L' ! a" "MaxBounds L' ! a \<le> MaxBounds (cs ! k) ! a" for a L'
    using child_nested[OF xin that(1), of k] st(5)[symmetric] that(2,3) by simp
  show ?case unfolding LL using IH p1 ne nest by (simp del: octree_inv.simps)
qed

lemma unmasked_all:
  "msk = Some m \<Longrightarrow> \<not> prefix path m \<Longrightarrow> unmasked_ids msk path n = ExportAllPointIds n"
proof (induction msk path n rule: unmasked_ids.induct)
  case (1 msk path mn mx db n ids)
  then show ?case by simp
next
  case (2 msk path mn mx db n cs)
  have np: "\<not> prefix (path @ [j]) m" for j using 2(3) by (metis append_prefixD)
  have "map (\<lambda>j. if Some (path @ [j]) = msk then [] else unmasked_ids msk (path @ [j]) (cs ! j))
           [0..<length cs]
        = map (\<lambda>j. ExportAllPointIds (cs ! j)) [0..<length cs]"
  proof (intro map_cong refl)
    fix j assume j: "j \<in> set [0..<length cs]"
    have "Some (path @ [j]) \<noteq> msk" using np[of j] 2(2) by auto
    moreover have "unmasked_ids msk (path @ [j]) (cs ! j) = ExportAllPointIds (cs ! j)"
      using 2(1)[OF j calculation 2(2) np] .
    ultimately show "(if Some (path @ [j]) = msk then [] else unmasked_ids msk (path @ [j]) (cs ! j))
        = ExportAllPointIds (cs ! j)" by simp
  qed
  also have "\<dots> = map ExportAllPointIds (map ((!) cs) [0..<length cs])" by simp
  also have "\<dots> = map ExportAllPointIds cs" by (simp only: map_nth)
  finally show ?case by simp
qed

lemma ids_of_children:
  "length cs = 8 \<Longrightarrow> i \<in> set (ExportAllPointIds (Internal mn mx db n cs)) \<Longrightarrow>
   \<exists>j < 8. i \<in> set (ExportAllPointIds (cs ! j))"
  by (auto simp: set_conv_nth[of cs])

lemma unmasked_of_children:
  "length cs = 8 \<Longrightarrow>
   i \<in> set (unmasked_ids msk path (Internal mn mx db n cs)) \<longleftrightarrow>
   (\<exists>j < 8. Some (path @ [j]) \<noteq> msk \<and> i \<in> set (unmasked_ids msk (path @ [j]) (cs ! j)))"
  by (auto split: if_splits)

lemma leaf_container_split:
  assumes "octree_inv pts n"
  shows "set (ExportAllPointIds n) \<subseteq>
           set (ExportAllPointIds (snd (GetLeafContainer (path, n) x))) \<union>
           set (unmasked_ids (Some (fst (GetLeafContainer (path, n) x))) path n)"
  using assms
proof (induction n arbitrary: path)
  case (Leaf mn mx db n ids)
  then show ?case by simp
next
  case (Internal mn mx db n cs)
  define k where "k = ChildIndex mn mx x"
  have st: "k < 8" "length cs = 8" "cs ! k \<in> set cs" "octree_inv pts (cs ! k)"
    "GetLeafContainer (path, Internal mn mx db n cs) x = GetLeafContainer (path @ [k], cs ! k) x"
    unfolding k_def by (rule descent_path[OF Internal.prems(1)])+
  define L where "L = GetLeafContainer (path @ [k], cs ! k) x"
  have LL: "GetLeafContainer (path, Internal mn mx db n cs) x = L" unfolding L_def by (rule st(5))
  note IH = Internal.IH[OF st(3) st(4), of "path @ [k]", folded L_def]
  note basic = leaf_container_path[OF st(4), of "path @ [k]" x, folded L_def]
  have pre: "prefix (path @ [k]) (fst L)" using basic by simp
  show ?case unfolding LL
  proof
    fix i assume "i \<in> set (ExportAllPointIds (Internal mn mx db n cs))"
    then obtain j where j: "j < 8" "i \<in> set (ExportAllPointIds (cs ! j))"
      using ids_of_children[OF st(2)] by blast
    show "i \<in> set (ExportAllPointIds (snd L)) \<union>
              set (unmasked_ids (Some (fst L)) path (Internal mn mx db n cs))"
    proof (cases "j = k")
      case False
      have np: "\<not> prefix (path @ [j]) (fst L)"
        using pre False by (auto simp: prefix_def)
      then have "Some (path @ [j]) \<noteq> Some (fst L)" by auto
      moreover have "unmasked_ids (Some (fst L)) (path @ [j]) (cs ! j) = ExportAllPointIds (cs ! j)"
        using np by (intro unmasked_all[OF refl])
      ultimately show ?thesis using j unmasked_of_children[OF st(2), of i "Some (fst L)" path mn mx db n]
        by auto
    next
      case True
      show ?thesis
      proof (cases "fst L = path @ [k]")
        case eq: True
        with basic have "L = (path @ [k], cs ! k)" by simp
        with j True show ?thesis by simp
      next
        case ne: False
        from IH j True have "i \<in> set (ExportAllPointIds (snd L)) \<or>
            i \<in> set (unmasked_ids (Some (fst L)) (path @ [k]) (cs ! k))" by auto
        then show ?thesis
          using ne st(1) unmasked_of_children[OF st(2), of i "Some (fst L)" path mn mx db n]
          by auto
      qed
    qed
  qed
qed

text \<open>
  A point \<open>p\<close> is separated from \<open>x\<close> by a face of the box \<open>(lmn, lmx)\<close> that lies strictly
  inside the box \<open>(nmn, nmx)\<close>.
\<close>

definition separated :: "point \<Rightarrow> point \<Rightarrow> point \<Rightarrow> point \<Rightarrow> point \<Rightarrow> point \<Rightarrow> bool" where
  "separated nmn nmx lmn lmx x p \<longleftrightarrow>
     (\<exists>a < 3. (nmn ! a < lmn ! a \<and> p ! a \<le> lmn ! a \<and> lmn ! a < x ! a) \<or>
               (lmx ! a < nmx ! a \<and> lmx ! a < p ! a \<and> x ! a \<le> lmx ! a))"

lemma leaf_container_separated:
  assumes "octree_inv pts n" and "in_box (MinBounds n) (MaxBounds n) x" and "\<not> IsLeaf n"
    and "i \<in> set (unmasked_ids (Some (fst (GetLeafContainer (path, n) x))) path n)"
  shows "separated (MinBounds n) (MaxBounds n)
           (MinBounds (snd (GetLeafContainer (path, n) x)))
           (MaxBounds (snd (GetLeafContainer (path, n) x))) x (GetPoint pts i)"
  using assms
proof (induction n arbitrary: path)
  case (Leaf mn mx db n ids)
  then show ?case by simp
next
  case (Internal mn mx db n cs)
  define k where "k = ChildIndex mn mx x"
  have xin: "in_box mn mx x" using Internal.prems(2) by simp
  note st = descent_step[OF Internal.prems(1) xin, folded k_def]
  define L where "L = GetLeafContainer (path @ [k], cs ! k) x"
  have LL: "GetLeafContainer (path, Internal mn mx db n cs) x = L" unfolding L_def by (rule st(7))
  note basic = leaf_container_basic[OF st(4) st(6), of "path @ [k]", folded L_def]
  let ?p = "GetPoint pts i"
  have xL: "\<forall>a < 3. MinBounds (snd L) ! a < x ! a \<and> x ! a \<le> MaxBounds (snd L) ! a"
    using basic by (simp add: in_box_axis)
  have nestL: "\<forall>a < 3. MinBounds (cs ! k) ! a \<le> MinBounds (snd L) ! a \<and>
      MaxBounds (snd L) ! a \<le> MaxBounds (cs ! k) ! a"
    using basic by simp
  have cbk: "MinBounds (cs ! k) = fst (child_bounds mn mx k)" "MaxBounds (cs ! k) = snd (child_bounds mn mx k)"
    using st(5)[symmetric] by simp_all
  from Internal.prems(4) obtain j where j: "j < 8" "Some (path @ [j]) \<noteq> Some (fst L)"
    "i \<in> set (unmasked_ids (Some (fst L)) (path @ [j]) (cs ! j))"
    unfolding LL using unmasked_of_children[OF st(2), of i "Some (fst L)" path mn mx db n] by blast
  have "separated mn mx (MinBounds (snd L)) (MaxBounds (snd L)) x ?p"
  proof (cases "j = k")
    case True
    have nl: "\<not> IsLeaf (cs ! k)"
    proof
      assume "IsLeaf (cs ! k)"
      then have "L = (path @ [k], cs ! k)" unfolding L_def by (cases "cs ! k") auto
      with j(2) True show False by simp
    qed
    have "separated (MinBounds (cs ! k)) (MaxBounds (cs ! k)) (MinBounds (snd L)) (MaxBounds (snd L)) x ?p"
      using Internal.IH[OF st(3) st(4) st(6) nl, of "path @ [k]", folded L_def] j(3) True by simp
    then obtain a where a: "a < 3"
      "(MinBounds (cs ! k) ! a < MinBounds (snd L) ! a \<and> ?p ! a \<le> MinBounds (snd L) ! a \<and>
          MinBounds (snd L) ! a < x ! a) \<or>
       (MaxBounds (snd L) ! a < MaxBounds (cs ! k) ! a \<and> MaxBounds (snd L) ! a < ?p ! a \<and>
          x ! a \<le> MaxBounds (snd L) ! a)"
      unfolding separated_def by blast
    have "mn ! a \<le> MinBounds (cs ! k) ! a" "MaxBounds (cs ! k) ! a \<le> mx ! a"
      using child_nested[OF xin a(1), of k] cbk by simp_all
    with a show ?thesis unfolding separated_def by (intro exI[of _ a]) auto
  next
    case False
    have jin: "cs ! j \<in> set cs" using j(1) st(2) by simp
    have jinv: "octree_inv pts (cs ! j)" using Internal.prems(1) jin by simp
    have "i \<in> set (ExportAllPointIds (cs ! j))" using j(3) unmasked_subset by blast
    then have pj: "in_box (MinBounds (cs ! j)) (MaxBounds (cs ! j)) ?p"
      using jinv by (intro octree_inv_in_box)
    have cbj: "MinBounds (cs ! j) = fst (child_bounds mn mx j)" "MaxBounds (cs ! j) = snd (child_bounds mn mx j)"
      using octree_inv_child_bounds[OF Internal.prems(1) j(1), symmetric] by simp_all
    from kbit_differ[OF j(1) st(1) False] obtain a where a: "a < 3" "kbit j a \<noteq> kbit k a" by blast
    have xa: "mn ! a < x ! a" "x ! a \<le> mx ! a" using xin a(1) by (auto simp: in_box_axis)
    have pa: "MinBounds (cs ! j) ! a < ?p ! a" "?p ! a \<le> MaxBounds (cs ! j) ! a"
      using pj a(1) by (auto simp: in_box_axis)
    have xk: "kbit k a \<longleftrightarrow> x ! a > MidPoint mn mx ! a"
      unfolding k_def by (rule ChildIndex_bit[OF a(1)])
    have L1: "MinBounds (snd L) ! a < x ! a" "x ! a \<le> MaxBounds (snd L) ! a"
      "MinBounds (cs ! k) ! a \<le> MinBounds (snd L) ! a" "MaxBounds (snd L) ! a \<le> MaxBounds (cs ! k) ! a"
      using xL nestL a(1) by auto
    show ?thesis
    proof (cases "kbit k a")
      case True
      with a(2) have nj: "\<not> kbit j a" by simp
      have "?p ! a \<le> MidPoint mn mx ! a" using pa(2) nj by (simp add: cbj child_bounds_axis[OF a(1)])
      moreover have "MidPoint mn mx ! a \<le> MinBounds (snd L) ! a"
        using L1(3) True by (simp add: cbk child_bounds_axis[OF a(1)])
      moreover have "mn ! a < MidPoint mn mx ! a" using xa by (simp add: MidPoint_axis[OF a(1)])
      ultimately show ?thesis unfolding separated_def using L1(1) a(1)
        by (intro exI[of _ a]) auto
    next
      case False
      with a(2) have nj: "kbit j a" by simp
      have "MidPoint mn mx ! a < ?p ! a" using pa(1) nj by (simp add: cbj child_bounds_axis[OF a(1)])
      moreover have "MaxBounds (snd L) ! a \<le> MidPoint mn mx ! a"
        using L1(4) False by (simp add: cbk child_bounds_axis[OF a(1)])
      moreover have "MidPoint mn mx ! a < mx ! a" using xa by (simp add: MidPoint_axis[OF a(1)])
      ultimately show ?thesis unfolding separated_def using L1(2) a(1)
        by (intro exI[of _ a]) auto
    qed
  qed
  then show ?case unfolding LL by simp
qed

subsection \<open>The distance to the inner boundary\<close>

lemma fold_min_Min: "fold min ds (d::real) = Min (set (d # ds))"
  by (rule Min.set_eq_fold [symmetric])

lemma axis_le_dist2:
  "a < 3 \<Longrightarrow> (p ! a - x ! a) * (p ! a - x ! a) \<le> Distance2BetweenPoints p x"
  using three_cases[of a] by (auto simp: Distance2BetweenPoints_def)

lemma inner_face_dists_nonneg: "d \<in> set (inner_face_dists n x rt) \<Longrightarrow> 0 \<le> d"
  by (auto simp: inner_face_dists_def split: if_splits)

lemma inner_face_dists_mem:
  "a < 3 \<Longrightarrow> MinBounds n ! a \<noteq> MinBounds rt ! a \<Longrightarrow>
     \<bar>x ! a - MinBounds n ! a\<bar> \<in> set (inner_face_dists n x rt)"
  "a < 3 \<Longrightarrow> MaxBounds n ! a \<noteq> MaxBounds rt ! a \<Longrightarrow>
     \<bar>MaxBounds n ! a - x ! a\<bar> \<in> set (inner_face_dists n x rt)"
  using three_cases[of a] by (auto simp: inner_face_dists_def)

lemma inner_boundary_le_face:
  assumes "d \<in> set (inner_face_dists n x rt)"
  shows "GetDistance2ToInnerBoundary n x rt \<le> d * d"
proof -
  from assms obtain e es where es: "inner_face_dists n x rt = e # es"
    by (cases "inner_face_dists n x rt") auto
  let ?m = "fold min es e"
  have m: "?m = Min (set (e # es))" by (rule fold_min_Min)
  have "?m \<in> set (e # es)" unfolding m by (rule Min_in) simp_all
  then have m0: "0 \<le> ?m" using inner_face_dists_nonneg[of ?m n x rt] es by simp
  have "?m \<le> d" unfolding m using assms es by (intro Min_le) simp_all
  then have "?m * ?m \<le> d * d" using m0 by (intro mult_mono) simp_all
  then show ?thesis by (simp add: GetDistance2ToInnerBoundary_def es)
qed

lemma inner_boundary_lower:
  assumes "separated (MinBounds rt) (MaxBounds rt) (MinBounds n) (MaxBounds n) x p"
  shows "GetDistance2ToInnerBoundary n x rt \<le> Distance2BetweenPoints p x"
proof -
  from assms obtain a where a: "a < 3"
    "(MinBounds rt ! a < MinBounds n ! a \<and> p ! a \<le> MinBounds n ! a \<and> MinBounds n ! a < x ! a) \<or>
     (MaxBounds n ! a < MaxBounds rt ! a \<and> MaxBounds n ! a < p ! a \<and> x ! a \<le> MaxBounds n ! a)"
    unfolding separated_def by blast
  from a(2) show ?thesis
  proof
    assume h: "MinBounds rt ! a < MinBounds n ! a \<and> p ! a \<le> MinBounds n ! a \<and> MinBounds n ! a < x ! a"
    let ?d = "\<bar>x ! a - MinBounds n ! a\<bar>"
    have "?d \<in> set (inner_face_dists n x rt)" using h a(1) by (intro inner_face_dists_mem) simp_all
    then have "GetDistance2ToInnerBoundary n x rt \<le> ?d * ?d" by (rule inner_boundary_le_face)
    also have "?d * ?d \<le> (p ! a - x ! a) * (p ! a - x ! a)" using h by (intro sq_le) simp
    also have "\<dots> \<le> Distance2BetweenPoints p x" using a(1) by (rule axis_le_dist2)
    finally show ?thesis .
  next
    assume h: "MaxBounds n ! a < MaxBounds rt ! a \<and> MaxBounds n ! a < p ! a \<and> x ! a \<le> MaxBounds n ! a"
    let ?d = "\<bar>MaxBounds n ! a - x ! a\<bar>"
    have "?d \<in> set (inner_face_dists n x rt)" using h a(1) by (intro inner_face_dists_mem) simp_all
    then have "GetDistance2ToInnerBoundary n x rt \<le> ?d * ?d" by (rule inner_boundary_le_face)
    also have "?d * ?d \<le> (p ! a - x ! a) * (p ! a - x ! a)" using h by (intro sq_le) simp
    also have "\<dots> \<le> Distance2BetweenPoints p x" using a(1) by (rule axis_le_dist2)
    finally show ?thesis .
  qed
qed

subsection \<open>The closest point\<close>

text \<open>
  \<open>closest pts ids x i d\<close>: the id \<open>i\<close> is one of \<open>ids\<close>, at the squared distance \<open>d\<close> from
  \<open>x\<close>, and no point of \<open>ids\<close> is closer: what a scan of all the points finds.
\<close>

definition closest :: "point list \<Rightarrow> svtkIdType list \<Rightarrow> point \<Rightarrow> svtkIdType \<Rightarrow> real \<Rightarrow> bool" where
  "closest pts ids x i d \<longleftrightarrow>
     i \<in> set ids \<and> Distance2BetweenPoints (GetPoint pts i) x = d \<and>
     d = Min ((\<lambda>j. Distance2BetweenPoints (GetPoint pts j) x) ` set ids)"

lemma closestI:
  assumes "i \<in> set ids" and "Distance2BetweenPoints (GetPoint pts i) x = d"
    and "\<And>j. j \<in> set ids \<Longrightarrow> d \<le> Distance2BetweenPoints (GetPoint pts j) x"
  shows "closest pts ids x i d"
proof -
  have "Min ((\<lambda>j. Distance2BetweenPoints (GetPoint pts j) x) ` set ids) = d"
    using assms by (intro Min_eqI) auto
  with assms(1,2) show ?thesis by (simp add: closest_def)
qed

text \<open>The result of the scan of one leaf, when no other point can be closer.\<close>

lemma leaf_result_closest:
  assumes f: "FindClosestPointInLeafNode pts lf x = (pI, mD)"
    and leaf: "IsLeaf lf" and sub: "set (ExportAllPointIds lf) \<subseteq> set ids"
    and rest: "\<And>j. j \<in> set ids \<Longrightarrow> j \<notin> set (ExportAllPointIds lf) \<Longrightarrow>
                 mD \<le> Distance2BetweenPoints (GetPoint pts j) x"
    and ne: "ids \<noteq> []"
    and fin: "\<forall>j \<in> set ids. Distance2BetweenPoints (GetPoint pts j) x < SVTK_DOUBLE_MAX"
  shows "closest pts ids x pI mD"
proof -
  note fr = FindClosestPointInLeafNode_result[OF f]
  have low: "mD \<le> Distance2BetweenPoints (GetPoint pts j) x" if "j \<in> set ids" for j
    using fr(2)[OF leaf] rest[OF that] by (cases "j \<in> set (ExportAllPointIds lf)") auto
  from ne obtain j where j: "j \<in> set ids" by (cases ids) auto
  have "mD < SVTK_DOUBLE_MAX" using low[OF j] fin j by force
  with fr(3) sub have "pI \<in> set ids" "Distance2BetweenPoints (GetPoint pts pI) x = mD" by auto
  then show ?thesis using low by (intro closestI)
qed

text \<open>The result of the scan of a leaf followed by the search that masks the leaf.\<close>

lemma leaf_then_sphere_closest:
  assumes f: "FindClosestPointInLeafNode pts (snd L) x = (pI, mD)"
    and L: "L = GetLeafContainer ([], rt) y"
    and inv: "octree_inv pts rt"
    and ne: "ExportAllPointIds rt \<noteq> []"
    and fin: "\<forall>j \<in> set (ExportAllPointIds rt). Distance2BetweenPoints (GetPoint pts j) x < SVTK_DOUBLE_MAX"
    and s: "FindClosestPointInSphereWithoutTolerance pts rt x mD (Some (fst L)) = (eI, eD)"
  shows "closest pts (ExportAllPointIds rt) x (if eD < mD then eI else pI) (if eD < mD then eD else mD)"
proof -
  let ?d = "\<lambda>j. Distance2BetweenPoints (GetPoint pts j) x"
  let ?all = "ExportAllPointIds rt"
  note fr = FindClosestPointInLeafNode_result[OF f]
  note lp = leaf_container_path[OF inv, of "[]" y, folded L]
  have leaf: "IsLeaf (snd L)" and sub: "set (ExportAllPointIds (snd L)) \<subseteq> set ?all" using lp by simp_all
  have split: "set ?all \<subseteq> set (ExportAllPointIds (snd L)) \<union> set (unmasked_ids (Some (fst L)) [] rt)"
    using leaf_container_split[OF inv, of "[]" y] L by simp
  have mD0: "0 \<le> mD"
    using fr(3) dist2_nonneg[of "GetPoint pts pI" x] by (auto simp: SVTK_DOUBLE_MAX_def)
  obtain idx m where lp2: "sphere_loop pts rt x mD (Some (fst L)) None [([], rt)] (mD * 1.1) (- 1) = (idx, m)"
    by (cases "sphere_loop pts rt x mD (Some (fst L)) None [([], rt)] (mD * 1.1) (- 1)")
  have e: "eD = m" "eI = (if m \<le> mD then idx else - 1)"
    using s lp2
    by (auto simp add: FindClosestPointInSphereWithoutTolerance_def FindClosestPointInSphere_def
        simp del: sphere_loop.simps)
  have rd: "DataBounds rt \<noteq> None"
  proof -
    have "data_ok (DataBounds rt) (map (GetPoint pts) ?all)" using inv by (rule octree_inv_data)
    with ne show ?thesis by (cases "DataBounds rt") (auto simp: data_ok_def)
  qed
  have sl: "m \<le> mD * 1.1 \<and>
         (\<forall>c \<in> set [([], rt)]. \<forall>i \<in> set (unmasked_ids (Some (fst L)) (fst c) (snd c)). m \<le> ?d i) \<and>
         ((idx = - 1 \<and> m = mD * 1.1) \<or>
          (m < mD * 1.1 \<and> ((idx \<in> stack_ids [([], rt)] \<and> ?d idx = m) \<or>
                      (idx = - 1 \<and> m = SVTK_DOUBLE_MAX))))"
    by (rule sphere_loop_correct[OF refl _ rd lp2]) (simp add: inv)
  have um: "m \<le> ?d i" if "i \<in> set (unmasked_ids (Some (fst L)) [] rt)" for i using sl that by simp
  have lf: "mD \<le> ?d i" if "i \<in> set (ExportAllPointIds (snd L))" for i using fr(2)[OF leaf] that by simp
  have cases: "i \<in> set (ExportAllPointIds (snd L)) \<or> i \<in> set (unmasked_ids (Some (fst L)) [] rt)"
    if "i \<in> set ?all" for i using split that by auto
  from ne obtain j where j: "j \<in> set ?all" by (cases ?all) auto
  have jfin: "?d j < SVTK_DOUBLE_MAX" using fin j by simp
  show ?thesis
  proof (cases "eD < mD")
    case True
    then have mlt: "m < mD" using e by simp
    have "m < mD * 1.1" using mlt mD0 by simp
    moreover have "m \<noteq> SVTK_DOUBLE_MAX" using mlt fr(1) by simp
    ultimately have at: "idx \<in> set ?all" "?d idx = m" using sl by (auto simp: stack_ids_def)
    have low: "m \<le> ?d i" if "i \<in> set ?all" for i
      using cases[OF that] um[of i] lf[of i] mlt by auto
    have "closest pts ?all x idx m" using at low by (intro closestI)
    then show ?thesis using True e mlt by simp
  next
    case False
    then have mge: "mD \<le> m" using e by simp
    have low: "mD \<le> ?d i" if "i \<in> set ?all" for i
      using cases[OF that] um[of i] lf[of i] mge by auto
    have "mD < SVTK_DOUBLE_MAX" using low[OF j] jfin by simp
    with fr(3) sub have "pI \<in> set ?all" "?d pI = mD" by auto
    then have "closest pts ?all x pI mD" using low by (intro closestI)
    then show ?thesis using False by simp
  qed
qed

lemma inside_leaf_only:
  assumes inv: "octree_inv pts rt" and xin: "ContainsPoint rt x"
    and L: "L = GetLeafContainer ([], rt) x"
    and f: "FindClosestPointInLeafNode pts (snd L) x = (pI, mD)"
    and c: "\<not> (mD > 0 \<and> GetDistance2ToInnerBoundary (snd L) x rt < mD)"
    and ne: "ExportAllPointIds rt \<noteq> []"
    and fin: "\<forall>j \<in> set (ExportAllPointIds rt). Distance2BetweenPoints (GetPoint pts j) x < SVTK_DOUBLE_MAX"
  shows "closest pts (ExportAllPointIds rt) x pI mD"
proof (rule leaf_result_closest[OF f _ _ _ ne fin])
  note lp = leaf_container_path[OF inv, of "[]" x, folded L]
  show "IsLeaf (snd L)" using lp by simp
  show "set (ExportAllPointIds (snd L)) \<subseteq> set (ExportAllPointIds rt)" using lp by simp
  fix j assume j: "j \<in> set (ExportAllPointIds rt)" "j \<notin> set (ExportAllPointIds (snd L))"
  have box: "in_box (MinBounds rt) (MaxBounds rt) x" using xin by (simp add: ContainsPoint_def)
  have um: "j \<in> set (unmasked_ids (Some (fst L)) [] rt)"
    using leaf_container_split[OF inv, of "[]" x] L j by auto
  have nl: "\<not> IsLeaf rt"
  proof
    assume "IsLeaf rt"
    then have "L = ([], rt)" unfolding L by (cases rt) auto
    with j show False by simp
  qed
  have "separated (MinBounds rt) (MaxBounds rt) (MinBounds (snd L)) (MaxBounds (snd L)) x (GetPoint pts j)"
    using leaf_container_separated[OF inv box nl, of j "[]"] um L by simp
  then have "GetDistance2ToInnerBoundary (snd L) x rt \<le> Distance2BetweenPoints (GetPoint pts j) x"
    by (rule inner_boundary_lower)
  then show "mD \<le> Distance2BetweenPoints (GetPoint pts j) x"
    using c dist2_nonneg[of "GetPoint pts j" x] by (cases "mD > 0") auto
qed

text \<open>
  Claim C1. On a tree with the invariants of section 3 that stores at least one point,
  all stored points being at a squared distance from \<open>x\<close> below the sentinel,
  \<^verbatim>\<open>FindClosestPoint\<close> returns a stored id together with its squared distance to \<open>x\<close>, and
  this distance is the least squared distance from \<open>x\<close> over all stored points.
\<close>

theorem FindClosestPoint_closest:
  assumes "BuildLocator l0 = Inr l"
    and "OctreeRootNode l = Some rt" and "LocatorPoints l = Some pts"
    and "octree_inv pts rt"
    and "ExportAllPointIds rt \<noteq> []"
    and "\<forall>j \<in> set (ExportAllPointIds rt).
           Distance2BetweenPoints (GetPoint pts j) x < SVTK_DOUBLE_MAX"
  shows "\<exists>i d. FindClosestPoint l0 x = Inr (i, d) \<and> closest pts (ExportAllPointIds rt) x i d"
proof -
  have n0: "NumberOfPoints rt \<noteq> 0" using octree_inv_count[OF assms(4)] assms(5) by simp
  show ?thesis
  proof (cases "ContainsPoint rt x")
    case True
    define L where "L = GetLeafContainer ([], rt) x"
    obtain pI mD where f: "FindClosestPointInLeafNode pts (snd L) x = (pI, mD)"
      by (cases "FindClosestPointInLeafNode pts (snd L) x")
    show ?thesis
    proof (cases "mD > 0 \<and> GetDistance2ToInnerBoundary (snd L) x rt < mD")
      case run: True
      obtain eI eD where s: "FindClosestPointInSphereWithoutTolerance pts rt x mD (Some (fst L)) = (eI, eD)"
        by (cases "FindClosestPointInSphereWithoutTolerance pts rt x mD (Some (fst L))")
      have r: "FindClosestPoint l0 x = Inr (if eD < mD then eI else pI, if eD < mD then eD else mD)"
        using assms(1-3) n0 True f[unfolded L_def] s[unfolded L_def] run[unfolded L_def]
        by (simp add: FindClosestPoint_def)
      show ?thesis unfolding r
        using leaf_then_sphere_closest[OF f L_def assms(4,5,6) s] by blast
    next
      case norun: False
      have r: "FindClosestPoint l0 x = Inr (pI, mD)"
        using assms(1-3) n0 True f[unfolded L_def] norun[unfolded L_def]
        by (auto simp add: FindClosestPoint_def)
      show ?thesis unfolding r
        using inside_leaf_only[OF assms(4) True L_def f norun assms(5,6)] by blast
    qed
  next
    case False
    define y where "y = [nudge_axis (FudgeFactor l) (MinBounds rt ! 0) (MaxBounds rt ! 0)
                           (GetClosestPointOnBoundary rt x True ! 0),
                         nudge_axis (FudgeFactor l) (MinBounds rt ! 1) (MaxBounds rt ! 1)
                           (GetClosestPointOnBoundary rt x True ! 1),
                         nudge_axis (FudgeFactor l) (MinBounds rt ! 2) (MaxBounds rt ! 2)
                           (GetClosestPointOnBoundary rt x True ! 2)]"
    define L where "L = GetLeafContainer ([], rt) y"
    obtain pI mD where f: "FindClosestPointInLeafNode pts (snd L) x = (pI, mD)"
      by (cases "FindClosestPointInLeafNode pts (snd L) x")
    obtain eI eD where s: "FindClosestPointInSphereWithoutTolerance pts rt x mD (Some (fst L)) = (eI, eD)"
      by (cases "FindClosestPointInSphereWithoutTolerance pts rt x mD (Some (fst L))")
    have r: "FindClosestPoint l0 x = Inr (if eD < mD then eI else pI, if eD < mD then eD else mD)"
      using assms(1-3) n0 False f[unfolded L_def y_def] s[unfolded L_def y_def]
      by (simp add: FindClosestPoint_def)
    show ?thesis unfolding r
      using leaf_then_sphere_closest[OF f L_def assms(4,5,6) s] by blast
  qed
qed

text \<open>The example tree and the query point \<open>(0.45, 0.45, 0.45)\<close> of scenario S1.\<close>

theorem FindClosestPoint_closest_witness:
  "BuildLocator example_locator = Inr example_locator \<and>
   octree_inv example_points example_root \<and>
   ExportAllPointIds example_root = [0, 1, 2] \<and>
   FindClosestPoint example_locator [45 / 100, 45 / 100, 45 / 100] = Inr (2, 3 / 400) \<and>
   closest example_points (ExportAllPointIds example_root) [45 / 100, 45 / 100, 45 / 100] 2 (3 / 400)"
proof -
  let ?x = "[45 / 100, 45 / 100, 45 / 100] :: point"
  have b: "BuildLocator example_locator = Inr example_locator"
    by (simp add: BuildLocator_def example_locator_def)
  have r: "OctreeRootNode example_locator = Some example_root" by (simp add: example_locator_def)
  have p: "LocatorPoints example_locator = Some example_points" by (simp add: example_locator_def)
  have i: "octree_inv example_points example_root" by code_simp
  have e: "ExportAllPointIds example_root = [0, 1, 2]" by code_simp
  have n: "ExportAllPointIds example_root \<noteq> []" unfolding e by simp
  have f: "\<forall>j \<in> set (ExportAllPointIds example_root).
      Distance2BetweenPoints (GetPoint example_points j) ?x < SVTK_DOUBLE_MAX"
    by code_simp
  have v: "FindClosestPoint example_locator ?x = Inr (2, 3 / 400)" by code_simp
  from FindClosestPoint_closest [OF b r p i n f] obtain i d
    where g: "FindClosestPoint example_locator ?x = Inr (i, d)"
      "closest example_points (ExportAllPointIds example_root) ?x i d"
    by blast
  from g(1) have "i = 2 \<and> d = 3 / 400" unfolding v by (simp only: sum.inject prod.inject)
  with g(2) have "closest example_points (ExportAllPointIds example_root) ?x 2 (3 / 400)"
    by (simp only:)
  with b i e v show ?thesis by (simp only: simp_thms)
qed

subsection \<open>What the sorter holds\<close>

text \<open>
  \<open>ins\<close> is the list of the pairs \<open>(dist2, pntId)\<close> passed to \<^verbatim>\<open>InsertPoint\<close> so far, in
  the order of the calls; \<open>bucket ins k\<close> is the list of the ids passed with the key \<open>k\<close>,
  in that order. The sorter holds, for every key up to \<open>LargestDist2\<close>, exactly this
  list; and \<open>LargestDist2\<close> is the sentinel, or it is a key of the map and the map holds
  more than \<open>NumRequested\<close> ids.
\<close>

definition bucket :: "(real \<times> svtkIdType) list \<Rightarrow> real \<Rightarrow> svtkIdType list" where
  "bucket ins k = map snd (filter (\<lambda>p. fst p = k) ins)"

definition sorter_spec :: "SortPoints \<Rightarrow> (real \<times> svtkIdType) list \<Rightarrow> bool" where
  "sorter_spec s ins \<longleftrightarrow>
     sorter_inv s \<and>
     (\<forall>k. map_find (dist2ToIds s) k =
            (if k \<le> LargestDist2 s \<and> bucket ins k \<noteq> [] then Some (bucket ins k) else None)) \<and>
     (LargestDist2 s = SVTK_DOUBLE_MAX \<or>
      (NumRequested s < NumberPoints s \<and> map_find (dist2ToIds s) (LargestDist2 s) \<noteq> None)) \<and>
     (\<forall>p \<in> set ins. fst p \<le> SVTK_DOUBLE_MAX)"

lemma sorter_spec_new: "sorter_spec (SortPoints_new N) []"
  by (simp add: sorter_spec_def SortPoints_new_def sorter_inv_def bucket_def)

lemma bucket_append: "bucket (ins @ [(d, i)]) k = bucket ins k @ (if k = d then [i] else [])"
  by (auto simp: bucket_def)

lemma last_key_in: "m \<noteq> [] \<Longrightarrow> map_find m (fst (last m)) \<noteq> None"
  by (simp add: map_find_None)

lemma keys_le_last:
  "sorted_wrt (<) (map fst m) \<Longrightarrow> map_find m k \<noteq> None \<Longrightarrow> k \<le> fst (last m)"
proof -
  assume s: "sorted_wrt (<) (map fst m)" and k: "map_find m k \<noteq> None"
  then have ne: "m \<noteq> []" by auto
  have "k \<in> set (map fst m)" using k by (simp add: map_find_None)
  then have "k \<le> Max (set (map fst m))" by (intro Max_ge) simp_all
  then show ?thesis using sorted_last_max[OF s ne] by simp
qed

lemma InsertPoint_spec:
  assumes sp: "sorter_spec s ins" and d: "d \<le> SVTK_DOUBLE_MAX"
  shows "sorter_spec (InsertPoint s d i) (ins @ [(d, i)])"
    and "LargestDist2 (InsertPoint s d i) \<le> LargestDist2 s"
    and "NumRequested (InsertPoint s d i) = NumRequested s"
proof -
  let ?L = "LargestDist2 s" and ?K = "NumRequested s" and ?m = "dist2ToIds s"
  let ?ins = "ins @ [(d, i)]"
  have inv: "sorter_inv s" and b: "\<And>k. map_find ?m k =
        (if k \<le> ?L \<and> bucket ins k \<noteq> [] then Some (bucket ins k) else None)"
    and c: "?L = SVTK_DOUBLE_MAX \<or> (?K < NumberPoints s \<and> map_find ?m ?L \<noteq> None)"
    and fin: "\<forall>p \<in> set ins. fst p \<le> SVTK_DOUBLE_MAX"
    using sp unfolding sorter_spec_def by blast+
  have fin': "\<forall>p \<in> set ?ins. fst p \<le> SVTK_DOUBLE_MAX" using fin d by simp
  have inv': "sorter_inv (InsertPoint s d i)" using inv by (rule InsertPoint_inv)
  show "NumRequested (InsertPoint s d i) = NumRequested s"
    by (simp add: InsertPoint_def Let_def)
  show "sorter_spec (InsertPoint s d i) ?ins" and "LargestDist2 (InsertPoint s d i) \<le> ?L"
  proof -
    have "sorter_spec (InsertPoint s d i) ?ins \<and> LargestDist2 (InsertPoint s d i) \<le> ?L"
    proof (cases "d \<le> ?L \<or> NumberPoints s < ?K")
      case False
      then have r: "InsertPoint s d i = s" by (simp add: InsertPoint_def)
      have "d > ?L" using False by simp
      then have "map_find ?m k =
          (if k \<le> ?L \<and> bucket ?ins k \<noteq> [] then Some (bucket ?ins k) else None)" for k
        using b[of k] by (auto simp: bucket_append)
      then show ?thesis unfolding r using inv c fin' by (simp add: sorter_spec_def)
    next
      case True
      have dL: "d \<le> ?L"
      proof (rule ccontr)
        assume "\<not> d \<le> ?L"
        with d have "?L \<noteq> SVTK_DOUBLE_MAX" by auto
        with c True \<open>\<not> d \<le> ?L\<close> show False by auto
      qed
      let ?m1 = "add_pair ?m d i"
      let ?n = "NumberPoints s + 1"
      have s1: "sorted_wrt (<) (map fst ?m1)" using inv by (simp add: sorter_inv_def sorted_add_pair)
      have ne1: "?m1 \<noteq> []" by (rule add_pair_nonempty)
      have b1: "map_find ?m1 k =
          (if k \<le> ?L \<and> bucket ?ins k \<noteq> [] then Some (bucket ?ins k) else None)" for k
        using b[of k] b[of d] dL by (auto simp: find_add_pair bucket_append)
      have Lin: "map_find ?m1 ?L \<noteq> None" if "map_find ?m ?L \<noteq> None"
        using that by (auto simp: find_add_pair)
      show ?thesis
      proof (cases "?n > ?K \<and> ?n - length (snd (last ?m1)) > ?K")
        case False
        then have r: "InsertPoint s d i = s \<lparr> NumberPoints := ?n, dist2ToIds := ?m1 \<rparr>"
          using True by (auto simp: InsertPoint_def Let_def)
        have "?L = SVTK_DOUBLE_MAX \<or> (?K < ?n \<and> map_find ?m1 ?L \<noteq> None)"
          using c Lin by auto
        then show ?thesis using inv' b1 fin' unfolding r by (simp add: sorter_spec_def)
      next
        case drop: True
        let ?m2 = "butlast ?m1"
        let ?L2 = "fst (last ?m2)"
        have r: "InsertPoint s d i = s \<lparr> NumberPoints := ?n - length (snd (last ?m1)),
            LargestDist2 := ?L2, dist2ToIds := ?m2 \<rparr>"
          using True drop by (auto simp: InsertPoint_def Let_def)
        have cnt: "NumberPoints (InsertPoint s d i) = length (concat (map snd ?m2))"
          using inv' unfolding r by (simp add: sorter_inv_def)
        have ne2: "?m2 \<noteq> []"
        proof
          assume "?m2 = []"
          with cnt drop show False unfolding r by simp
        qed
        have s2: "sorted_wrt (<) (map fst ?m2)" using s1 by (rule sorted_butlast)
        have f2: "map_find ?m2 k = (if k = fst (last ?m1) then None else map_find ?m1 k)" for k
          using find_butlast[OF s1 ne1] by simp
        have L2in2: "map_find ?m2 ?L2 \<noteq> None" using ne2 by (rule last_key_in)
        then have L2ne: "?L2 \<noteq> fst (last ?m1)" and L2in1: "map_find ?m1 ?L2 \<noteq> None"
          using f2[of ?L2] by (auto split: if_splits)
        have L2L: "?L2 \<le> ?L" using L2in1 b1[of ?L2] by (auto split: if_splits)
        have "?L2 \<le> fst (last ?m1)" using keys_le_last[OF s1 L2in1] .
        with L2ne have L2lt: "?L2 < fst (last ?m1)" by simp
        have b2: "map_find ?m2 k =
            (if k \<le> ?L2 \<and> bucket ?ins k \<noteq> [] then Some (bucket ?ins k) else None)" for k
        proof (cases "k \<le> ?L2")
          case True
          then have "k \<noteq> fst (last ?m1)" "k \<le> ?L" using L2lt L2L by auto
          then show ?thesis using f2[of k] b1[of k] True by simp
        next
          case False
          have "map_find ?m2 k = None"
          proof (rule ccontr)
            assume "map_find ?m2 k \<noteq> None"
            from keys_le_last[OF s2 this] False show False by simp
          qed
          with False show ?thesis by simp
        qed
        show ?thesis unfolding r using inv'[unfolded r] b2 L2in2 fin' drop L2L
          by (simp add: sorter_spec_def)
      qed
    qed
    then show "sorter_spec (InsertPoint s d i) ?ins" and "LargestDist2 (InsertPoint s d i) \<le> ?L"
      by simp_all
  qed
qed

subsection \<open>The ids of the sorter in ascending key order\<close>

definition entries :: "dist2map \<Rightarrow> (real \<times> svtkIdType) list" where
  "entries m = concat (map (\<lambda>e. map (Pair (fst e)) (snd e)) m)"

lemma entries_Cons: "entries ((k, v) # m) = map (Pair k) v @ entries m"
  by (simp add: entries_def)

lemma entries_Nil: "entries [] = []"
  by (simp add: entries_def)

lemma entries_ids: "map snd (entries m) = concat (map snd m)"
  by (induction m) (simp_all add: entries_def comp_def)

lemma entries_keys: "fst ` set (entries m) \<subseteq> fst ` set m"
  by (induction m) (auto simp: entries_def)

lemma entries_sorted: "sorted_wrt (<) (map fst m) \<Longrightarrow> sorted (map fst (entries m))"
proof (induction m)
  case Nil
  show ?case by (simp add: entries_Nil)
next
  case (Cons e m)
  obtain k v where e: "e = (k, v)" by (cases e)
  have lt: "\<forall>y \<in> fst ` set m. k < y" and sm: "sorted_wrt (<) (map fst m)"
    using Cons.prems by (auto simp: e)
  have "\<forall>y \<in> fst ` set (entries m). k < y" using lt entries_keys[of m] by blast
  then have "\<forall>x \<in> set (map fst (map (Pair k) v)). \<forall>y \<in> set (map fst (entries m)). x \<le> y"
    by auto
  moreover have "sorted (map fst (map (Pair k) v))" by (simp add: comp_def sorted_wrt_iff_nth_less)
  ultimately show ?case using Cons.IH[OF sm] unfolding e entries_Cons map_append sorted_append
    by blast
qed

lemma entries_filter:
  "sorted_wrt (<) (map fst m) \<Longrightarrow>
   filter (\<lambda>p. fst p = k) (entries m) = (case map_find m k of None \<Rightarrow> [] | Some b \<Rightarrow> map (Pair k) b)"
proof (induction m)
  case Nil
  show ?case by (simp add: entries_Nil)
next
  case (Cons e m)
  obtain k' v where e: "e = (k', v)" by (cases e)
  have lt: "\<forall>y \<in> fst ` set m. k' < y" and sm: "sorted_wrt (<) (map fst m)"
    using Cons.prems by (auto simp: e)
  show ?case
  proof (cases "k = k'")
    case True
    have "k \<notin> fst ` set (entries m)" using lt entries_keys[of m] True by blast
    then have "filter (\<lambda>p. fst p = k) (entries m) = []" by (auto simp: filter_empty_conv)
    moreover have "filter (\<lambda>p. fst p = k) (map (Pair k') v) = map (Pair k') v"
      using True by (induction v) simp_all
    ultimately show ?thesis using True by (simp add: e entries_Cons)
  next
    case False
    have "filter (\<lambda>p. fst p = k) (map (Pair k') v) = []"
      using False by (induction v) simp_all
    then show ?thesis using False Cons.IH[OF sm] by (simp add: e entries_Cons)
  qed
qed

lemma bucket_pairs: "map (Pair k) (bucket ins k) = filter (\<lambda>p. fst p = k) ins"
  unfolding bucket_def by (induction ins) auto

lemma sort_key_unique:
  assumes "sorted (map f ys)" and "\<And>k. filter (\<lambda>y. f y = k) ys = filter (\<lambda>y. f y = k) xs"
  shows "sort_key f xs = ys"
proof (rule properties_for_sort_key)
  show "mset ys = mset xs"
  proof (rule multiset_eqI)
    fix p
    have "count (mset ys) p = count (mset (filter (\<lambda>y. f y = f p) ys)) p" by simp
    also have "\<dots> = count (mset (filter (\<lambda>y. f y = f p) xs)) p" by (simp only: assms(2))
    also have "\<dots> = count (mset xs) p" by simp
    finally show "count (mset ys) p = count (mset xs) p" .
  qed
  show "filter (\<lambda>x. f k = f x) ys = filter (\<lambda>x. f k = f x) xs" for k
    using assms(2)[of "f k"] by (simp add: eq_commute)
  show "sorted (map f ys)" by fact
qed

lemma sorter_entries:
  assumes "sorter_spec s ins"
  shows "entries (dist2ToIds s) = sort_key fst (filter (\<lambda>p. fst p \<le> LargestDist2 s) ins)"
proof (rule sort_key_unique [symmetric])
  have sm: "sorted_wrt (<) (map fst (dist2ToIds s))"
    using assms by (simp add: sorter_spec_def sorter_inv_def)
  then show "sorted (map fst (entries (dist2ToIds s)))" by (rule entries_sorted)
  fix k
  have b: "map_find (dist2ToIds s) k =
      (if k \<le> LargestDist2 s \<and> bucket ins k \<noteq> [] then Some (bucket ins k) else None)"
    using assms by (simp add: sorter_spec_def)
  have f: "filter (\<lambda>y. fst y = k) (filter (\<lambda>p. fst p \<le> LargestDist2 s) ins)
      = (if k \<le> LargestDist2 s then filter (\<lambda>p. fst p = k) ins else [])"
    by (induction ins) auto
  have e: "bucket ins k = [] \<Longrightarrow> filter (\<lambda>p. fst p = k) ins = []"
    using bucket_pairs[of k ins] by simp
  show "filter (\<lambda>y. fst y = k) (entries (dist2ToIds s))
      = filter (\<lambda>y. fst y = k) (filter (\<lambda>p. fst p \<le> LargestDist2 s) ins)"
    unfolding entries_filter[OF sm] b f using e by (simp add: bucket_pairs)
qed

lemma sort_key_split:
  "sort_key f xs = sort_key f (filter (\<lambda>p. f p \<le> (L::real)) xs)
                   @ sort_key f (filter (\<lambda>p. \<not> f p \<le> L) xs)"
proof (rule sort_key_unique)
  let ?A = "filter (\<lambda>p. f p \<le> L) xs" and ?B = "filter (\<lambda>p. \<not> f p \<le> L) xs"
  have "\<forall>a \<in> set (map f (sort_key f ?A)). \<forall>b \<in> set (map f (sort_key f ?B)). a \<le> b"
    by auto
  then show "sorted (map f (sort_key f ?A @ sort_key f ?B))"
    unfolding map_append sorted_append by simp
  fix k
  have "filter (\<lambda>y. f y = k) ?A @ filter (\<lambda>y. f y = k) ?B = filter (\<lambda>y. f y = k) xs"
    by (induction xs) auto
  then show "filter (\<lambda>y. f y = k) (sort_key f ?A @ sort_key f ?B) = filter (\<lambda>y. f y = k) xs"
    by (simp add: sort_key_stable)
qed

lemma sorter_count:
  assumes "sorter_spec s ins"
  shows "NumberPoints s = length (filter (\<lambda>p. fst p \<le> LargestDist2 s) ins)"
proof -
  have "NumberPoints s = length (map snd (entries (dist2ToIds s)))"
    using assms by (simp add: sorter_spec_def sorter_inv_def entries_ids)
  then show ?thesis by (simp add: sorter_entries[OF assms])
qed

text \<open>
  The ids that \<^verbatim>\<open>GetSortedIds\<close> writes are the first \<open>NumRequested\<close> of all the offered pairs
  in a stable sort by distance, when the sorter holds that many.
\<close>

lemma GetSortedIds_spec:
  assumes sp: "sorter_spec s ins" and n: "NumRequested s \<le> NumberPoints s"
  shows "GetSortedIds s = map snd (take (NumRequested s) (sort_key fst ins))"
proof -
  let ?A = "filter (\<lambda>p. fst p \<le> LargestDist2 s) ins"
  have len: "NumRequested s \<le> length (sort_key fst ?A)"
    using n sorter_count[OF sp] by simp
  have "GetSortedIds s = take (NumRequested s) (map snd (entries (dist2ToIds s)))"
    using n by (auto simp: GetSortedIds_def entries_ids)
  also have "\<dots> = map snd (take (NumRequested s) (sort_key fst ?A))"
    by (simp add: sorter_entries[OF sp] take_map)
  also have "take (NumRequested s) (sort_key fst ?A) = take (NumRequested s) (sort_key fst ins)"
  proof -
    have "take (NumRequested s) (sort_key fst ins)
        = take (NumRequested s) (sort_key fst ?A @ sort_key fst (filter (\<lambda>p. \<not> fst p \<le> LargestDist2 s) ins))"
      by (simp only: sort_key_split[of fst ins "LargestDist2 s", symmetric])
    also have "\<dots> = take (NumRequested s) (sort_key fst ?A)" using len by simp
    finally show ?thesis by simp
  qed
  finally show ?thesis .
qed

subsection \<open>The points of a node go to the sorter\<close>

definition offers :: "point list \<Rightarrow> point \<Rightarrow> svtkIdType list \<Rightarrow> (real \<times> svtkIdType) list" where
  "offers pts x ids = map (\<lambda>i. (Distance2BetweenPoints x (GetPoint pts i), i)) ids"

lemma offers_append: "offers pts x (a @ b) = offers pts x a @ offers pts x b"
  by (simp add: offers_def)

lemma fold_InsertPoint_spec:
  assumes "sorter_spec s ins"
    and "\<forall>i \<in> set ids. Distance2BetweenPoints x (GetPoint pts i) \<le> SVTK_DOUBLE_MAX"
  shows "sorter_spec (fold (\<lambda>i s. InsertPoint s (Distance2BetweenPoints x (GetPoint pts i)) i) ids s)
           (ins @ offers pts x ids) \<and>
         LargestDist2 (fold (\<lambda>i s. InsertPoint s (Distance2BetweenPoints x (GetPoint pts i)) i) ids s)
           \<le> LargestDist2 s \<and>
         NumRequested (fold (\<lambda>i s. InsertPoint s (Distance2BetweenPoints x (GetPoint pts i)) i) ids s)
           = NumRequested s"
  using assms
proof (induction ids arbitrary: s ins)
  case Nil
  then show ?case by (simp add: offers_def)
next
  case (Cons i ids)
  let ?d = "Distance2BetweenPoints x (GetPoint pts i)"
  have d: "?d \<le> SVTK_DOUBLE_MAX" using Cons.prems(2) by simp
  note st = InsertPoint_spec[OF Cons.prems(1) d, of i]
  have r: "\<forall>i \<in> set ids. Distance2BetweenPoints x (GetPoint pts i) \<le> SVTK_DOUBLE_MAX"
    using Cons.prems(2) by simp
  from Cons.IH[OF st(1) r] st(2,3) show ?case by (simp add: offers_def)
qed

lemma insert_node_points_spec:
  assumes "sorter_spec s ins" and "octree_inv pts node"
    and "\<forall>i \<in> set (ExportAllPointIds node). Distance2BetweenPoints x (GetPoint pts i) \<le> SVTK_DOUBLE_MAX"
  shows "sorter_spec (insert_node_points pts x node s) (ins @ offers pts x (ExportAllPointIds node))"
    and "LargestDist2 (insert_node_points pts x node s) \<le> LargestDist2 s"
    and "NumRequested (insert_node_points pts x node s) = NumRequested s"
proof -
  have "take (nat (NumberOfPoints node)) (ExportAllPointIds node) = ExportAllPointIds node"
    using octree_inv_count[OF assms(2)] by simp
  then have e: "insert_node_points pts x node s =
      fold (\<lambda>i s. InsertPoint s (Distance2BetweenPoints x (GetPoint pts i)) i) (ExportAllPointIds node) s"
    by (simp add: insert_node_points_def)
  from fold_InsertPoint_spec[OF assms(1,3)]
  show "sorter_spec (insert_node_points pts x node s) (ins @ offers pts x (ExportAllPointIds node))"
    and "LargestDist2 (insert_node_points pts x node s) \<le> LargestDist2 s"
    and "NumRequested (insert_node_points pts x node s) = NumRequested s"
    unfolding e by simp_all
qed

subsection \<open>The loop over the queue\<close>

text \<open>
  \<open>knn_order\<close> is \<open>knn_loop\<close> with a different result: the ids that the loop passes to
  \<^verbatim>\<open>InsertPoint\<close>, in the order of the calls.
\<close>

function knn_order ::
  "point list \<Rightarrow> svtkIncrementalOctreeNode \<Rightarrow> point \<Rightarrow> nat list \<Rightarrow> node_ptr list \<Rightarrow> SortPoints
     \<Rightarrow> real \<Rightarrow> svtkIdType list" where
  "knn_order pts rt x startNode [] ptsSorter maxiDist2 = []"
| "knn_order pts rt x startNode (pThisNode # nodeQueue) ptsSorter maxiDist2 =
     (if fst pThisNode = startNode then knn_order pts rt x startNode nodeQueue ptsSorter maxiDist2
      else if \<not> IsLeaf (snd pThisNode) then
        knn_order pts rt x startNode
          (nodeQueue @ filter (knn_suspect rt x maxiDist2) (GetChildren pThisNode))
          ptsSorter maxiDist2
      else if GetDistance2ToBoundary (snd pThisNode) x rt True < maxiDist2 then
        take (nat (NumberOfPoints (snd pThisNode))) (ExportAllPointIds (snd pThisNode)) @
        knn_order pts rt x startNode nodeQueue
          (insert_node_points pts x (snd pThisNode) ptsSorter)
          (GetLargestDist2 (insert_node_points pts x (snd pThisNode) ptsSorter))
      else knn_order pts rt x startNode nodeQueue ptsSorter maxiDist2)"
  by pat_completeness auto
termination
proof (relation "measure (\<lambda>(pts, rt, x, startNode, q, ptsSorter, maxiDist2).
          sum_list (map (\<lambda>c. Suc (size (snd c))) q))", goal_cases)
  case (3 pts rt x startNode pThisNode nodeQueue ptsSorter maxiDist2)
  obtain path nd where c: "pThisNode = (path, nd)" by (cases pThisNode)
  from 3 obtain mn mx db n cs where nd: "nd = Internal mn mx db n cs"
    using c by (cases nd) auto
  have "sum_list (map (\<lambda>c. Suc (size (snd c)))
          (filter (knn_suspect rt x maxiDist2) (GetChildren pThisNode)))
        \<le> sum_list (map (\<lambda>c. Suc (size (snd c))) (GetChildren pThisNode))"
    by (rule filter_size_le)
  also have "\<dots> < Suc (size nd)" unfolding c nd by (rule children_size)
  finally show ?case using c by (simp del: GetChildren.simps)
qed simp_all

text \<open>
  The ids that the loop can reach from a node of the queue: none from the start node,
  otherwise those below the node that are not below the start node.
\<close>

definition knn_reach :: "nat list \<Rightarrow> node_ptr \<Rightarrow> svtkIdType list" where
  "knn_reach startNode c =
     (if fst c = startNode then [] else unmasked_ids (Some startNode) (fst c) (snd c))"

lemma knn_reach_subset: "set (knn_reach st c) \<subseteq> set (ExportAllPointIds (snd c))"
  using unmasked_subset[of "Some st" "fst c" "snd c"] by (auto simp: knn_reach_def)

lemma knn_reach_leaf:
  "fst c \<noteq> st \<Longrightarrow> IsLeaf (snd c) \<Longrightarrow> knn_reach st c = ExportAllPointIds (snd c)"
  by (cases c, cases "snd c") (auto simp: knn_reach_def)

lemma knn_reach_internal:
  "fst c \<noteq> st \<Longrightarrow> \<not> IsLeaf (snd c) \<Longrightarrow>
   knn_reach st c = concat (map (knn_reach st) (GetChildren c))"
  by (cases c, cases "snd c") (auto simp: knn_reach_def comp_def intro!: arg_cong[where f = concat])

lemma dist2_sym: "Distance2BetweenPoints p q = Distance2BetweenPoints q p"
  by (simp add: Distance2BetweenPoints_def algebra_simps)

lemma mset_concat_filter:
  "mset (concat (map f xs)) =
   mset (concat (map f (filter P xs))) + mset (concat (map f (filter (\<lambda>x. \<not> P x) xs)))"
  by (induction xs) auto

definition knn_post ::
  "point list \<Rightarrow> point \<Rightarrow> nat list \<Rightarrow> node_ptr list \<Rightarrow> SortPoints \<Rightarrow> (real \<times> svtkIdType) list
     \<Rightarrow> SortPoints \<Rightarrow> svtkIdType list \<Rightarrow> bool" where
  "knn_post pts x st q s ins s' tr \<longleftrightarrow>
     sorter_spec s' (ins @ offers pts x tr) \<and>
     LargestDist2 s' \<le> LargestDist2 s \<and>
     NumRequested s' = NumRequested s \<and>
     (\<exists>rest. mset (concat (map (knn_reach st) q)) = mset tr + mset rest \<and>
             (\<forall>i \<in> set rest. LargestDist2 s' \<le> Distance2BetweenPoints x (GetPoint pts i)))"

lemma knn_postI:
  assumes "sorter_spec s' (ins @ offers pts x tr)" and "LargestDist2 s' \<le> LargestDist2 s"
    and "NumRequested s' = NumRequested s"
    and "mset (concat (map (knn_reach st) q)) = mset tr + mset rest"
    and "\<forall>i \<in> set rest. LargestDist2 s' \<le> Distance2BetweenPoints x (GetPoint pts i)"
  shows "knn_post pts x st q s ins s' tr"
  unfolding knn_post_def using assms by blast

lemma knn_loop_spec:
  assumes "sorter_spec s ins" and "maxi = LargestDist2 s"
    and "\<forall>c \<in> set q. octree_inv pts (snd c)" and "DataBounds rt \<noteq> None"
    and "\<forall>c \<in> set q. \<forall>i \<in> set (ExportAllPointIds (snd c)).
           Distance2BetweenPoints x (GetPoint pts i) \<le> SVTK_DOUBLE_MAX"
  shows "knn_post pts x st q s ins (knn_loop pts rt x st q s maxi) (knn_order pts rt x st q s maxi)"
  using assms
proof (induction pts rt x st q s maxi arbitrary: ins rule: knn_loop.induct)
  case (1 pts rt x st s maxi)
  then show ?case by (simp add: knn_post_def offers_def)
next
  case (2 pts rt x st p q s maxi)
  note sp = "2.prems"(1) and mx = "2.prems"(2) and db = "2.prems"(4)
  have invp: "octree_inv pts (snd p)" and invq: "\<forall>c \<in> set q. octree_inv pts (snd c)"
    using "2.prems"(3) by simp_all
  have finp: "\<forall>i \<in> set (ExportAllPointIds (snd p)).
      Distance2BetweenPoints x (GetPoint pts i) \<le> SVTK_DOUBLE_MAX"
    and finq: "\<forall>c \<in> set q. \<forall>i \<in> set (ExportAllPointIds (snd c)).
      Distance2BetweenPoints x (GetPoint pts i) \<le> SVTK_DOUBLE_MAX"
    using "2.prems"(5) by simp_all
  have low: "GetDistance2ToBoundary (snd c) x rt True \<le> Distance2BetweenPoints x (GetPoint pts i)"
    if "octree_inv pts (snd c)" "i \<in> set (ExportAllPointIds (snd c))" for c :: node_ptr and i
    using data_distance_lower[OF that(1) db that(2), of x] by (simp add: dist2_sym)
  show ?case
  proof (cases "fst p = st")
    case True
    have r: "knn_reach st p = []" using True by (simp add: knn_reach_def)
    from "2.IH"(1)[OF True sp mx invq db finq] show ?thesis
      using True by (simp add: knn_post_def r)
  next
    case ns: False
    show ?thesis
    proof (cases "IsLeaf (snd p)")
      case False
      let ?ch = "GetChildren p"
      let ?q = "q @ filter (knn_suspect rt x maxi) ?ch"
      have chinv: "\<forall>c \<in> set ?ch. octree_inv pts (snd c)"
        using children_inv[OF invp] by blast
      have chsub: "\<forall>c \<in> set ?ch. set (ExportAllPointIds (snd c)) \<subseteq> set (ExportAllPointIds (snd p))"
        using False children_ids by (cases p, cases "snd p") (auto simp del: GetChildren.simps ExportAllPointIds.simps)
      have inv': "\<forall>c \<in> set ?q. octree_inv pts (snd c)" using invq chinv by auto
      have fin': "\<forall>c \<in> set ?q. \<forall>i \<in> set (ExportAllPointIds (snd c)).
          Distance2BetweenPoints x (GetPoint pts i) \<le> SVTK_DOUBLE_MAX"
        using finq finp chsub by auto
      let ?s' = "knn_loop pts rt x st ?q s maxi" and ?tr = "knn_order pts rt x st ?q s maxi"
      have post: "knn_post pts x st ?q s ins ?s' ?tr"
        by (rule "2.IH"(2)[OF ns False sp mx inv' db fin'])
      then obtain rest where rest: "mset (concat (map (knn_reach st) ?q)) = mset ?tr + mset rest"
        "\<forall>i \<in> set rest. LargestDist2 ?s' \<le> Distance2BetweenPoints x (GetPoint pts i)"
        and le: "LargestDist2 ?s' \<le> LargestDist2 s"
        and sp': "sorter_spec ?s' (ins @ offers pts x ?tr)" and nr: "NumRequested ?s' = NumRequested s"
        unfolding knn_post_def by blast
      let ?out = "concat (map (knn_reach st) (filter (\<lambda>c. \<not> knn_suspect rt x maxi c) ?ch))"
      have "mset (concat (map (knn_reach st) (p # q)))
          = mset (concat (map (knn_reach st) ?q)) + mset ?out"
        using mset_concat_filter[of "knn_reach st" ?ch "knn_suspect rt x maxi"]
        by (simp add: knn_reach_internal[OF ns False])
      also have "\<dots> = (mset ?tr + mset rest) + mset ?out" by (simp only: rest(1))
      finally have m: "mset (concat (map (knn_reach st) (p # q))) = mset ?tr + mset (rest @ ?out)"
        by simp
      have far: "LargestDist2 ?s' \<le> Distance2BetweenPoints x (GetPoint pts i)" if "i \<in> set ?out" for i
      proof -
        from that obtain c where c: "c \<in> set ?ch" "\<not> knn_suspect rt x maxi c" "i \<in> set (knn_reach st c)"
          by auto
        have "i \<in> set (ExportAllPointIds (snd c))" using c(3) knn_reach_subset by blast
        from low[OF _ this] chinv c(1)
        have "GetDistance2ToBoundary (snd c) x rt True \<le> Distance2BetweenPoints x (GetPoint pts i)"
          by blast
        moreover have "maxi \<le> GetDistance2ToBoundary (snd c) x rt True"
          using c(2) by (simp add: knn_suspect_def)
        ultimately show ?thesis using le mx by simp
      qed
      have all: "\<forall>i \<in> set (rest @ ?out). LargestDist2 ?s' \<le> Distance2BetweenPoints x (GetPoint pts i)"
        using rest(2) far by auto
      have e: "knn_loop pts rt x st (p # q) s maxi = ?s'" "knn_order pts rt x st (p # q) s maxi = ?tr"
        using ns False by simp_all
      show ?thesis unfolding e by (rule knn_postI[OF sp' le nr m all])
    next
      case leaf: True
      have r: "knn_reach st p = ExportAllPointIds (snd p)" by (rule knn_reach_leaf[OF ns leaf])
      have tk: "take (nat (NumberOfPoints (snd p))) (ExportAllPointIds (snd p)) = ExportAllPointIds (snd p)"
        using octree_inv_count[OF invp] by simp
      show ?thesis
      proof (cases "GetDistance2ToBoundary (snd p) x rt True < maxi")
        case True
        let ?s1 = "insert_node_points pts x (snd p) s"
        let ?ids = "ExportAllPointIds (snd p)"
        note st1 = insert_node_points_spec[OF sp invp finp]
        let ?s' = "knn_loop pts rt x st q ?s1 (GetLargestDist2 ?s1)"
        let ?tr = "knn_order pts rt x st q ?s1 (GetLargestDist2 ?s1)"
        have post: "knn_post pts x st q ?s1 (ins @ offers pts x ?ids) ?s' ?tr"
          using leaf by (intro "2.IH"(3)[OF ns _ True st1(1) _ invq db finq])
            (simp_all add: GetLargestDist2_def)
        then have "knn_post pts x st (p # q) s ins ?s' (?ids @ ?tr)"
          using st1(2,3) unfolding knn_post_def by (simp add: offers_append r)
        then show ?thesis using ns leaf True by (simp add: tk)
      next
        case False
        let ?s' = "knn_loop pts rt x st q s maxi" and ?tr = "knn_order pts rt x st q s maxi"
        have post: "knn_post pts x st q s ins ?s' ?tr"
          using leaf by (intro "2.IH"(4)[OF ns _ False sp mx invq db finq]) simp
        then obtain rest where rest: "mset (concat (map (knn_reach st) q)) = mset ?tr + mset rest"
          "\<forall>i \<in> set rest. LargestDist2 ?s' \<le> Distance2BetweenPoints x (GetPoint pts i)"
          and le: "LargestDist2 ?s' \<le> LargestDist2 s"
          and sp': "sorter_spec ?s' (ins @ offers pts x ?tr)" and nr: "NumRequested ?s' = NumRequested s"
          unfolding knn_post_def by blast
        have m: "mset (concat (map (knn_reach st) (p # q)))
            = mset ?tr + mset (rest @ ExportAllPointIds (snd p))"
          using rest(1) by (simp add: r)
        have "LargestDist2 ?s' \<le> Distance2BetweenPoints x (GetPoint pts i)"
          if "i \<in> set (ExportAllPointIds (snd p))" for i
          using low[OF invp that] False le mx by simp
        then have all: "\<forall>i \<in> set (rest @ ExportAllPointIds (snd p)).
            LargestDist2 ?s' \<le> Distance2BetweenPoints x (GetPoint pts i)"
          using rest(2) by auto
        have e: "knn_loop pts rt x st (p # q) s maxi = ?s'" "knn_order pts rt x st (p # q) s maxi = ?tr"
          using ns leaf False by simp_all
        show ?thesis unfolding e by (rule knn_postI[OF sp' le nr m all])
      qed
    qed
  qed
qed

subsection \<open>Pointers into the tree\<close>

fun node_at :: "svtkIncrementalOctreeNode \<Rightarrow> nat list \<Rightarrow> svtkIncrementalOctreeNode option" where
  "node_at n [] = Some n"
| "node_at (Leaf mn mx db n ids) (j # p) = None"
| "node_at (Internal mn mx db n cs) (j # p) = (if j < length cs then node_at (cs ! j) p else None)"

definition ptr_ok :: "svtkIncrementalOctreeNode \<Rightarrow> node_ptr \<Rightarrow> bool" where
  "ptr_ok rt c \<longleftrightarrow> node_at rt (fst c) = Some (snd c)"

lemma node_at_append:
  "node_at rt path = Some (Internal mn mx db n cs) \<Longrightarrow> j < length cs \<Longrightarrow>
   node_at rt (path @ [j]) = Some (cs ! j)"
proof (induction path arbitrary: rt)
  case Nil
  then show ?case by simp
next
  case (Cons a path)
  then show ?case by (cases rt) (auto split: if_splits)
qed

lemma ptr_ok_root: "ptr_ok rt ([], rt)"
  by (simp add: ptr_ok_def)

lemma ptr_ok_child: "ptr_ok rt c \<Longrightarrow> c' \<in> set (GetChildren c) \<Longrightarrow> ptr_ok rt c'"
  by (cases c, cases "snd c") (auto simp: ptr_ok_def node_at_append)

lemma child_smaller: "c' \<in> set (GetChildren c) \<Longrightarrow> size (snd c') < size (snd c)"
  by (cases c, cases "snd c")
     (auto simp: less_Suc_eq_le intro!: size_list_estimation' [OF nth_mem])

lemma child_ids:
  "c' \<in> set (GetChildren c) \<Longrightarrow> set (ExportAllPointIds (snd c')) \<subseteq> set (ExportAllPointIds (snd c))"
proof (cases c)
  case (Pair path nd)
  assume m: "c' \<in> set (GetChildren c)"
  show ?thesis
  proof (cases nd)
    case Leaf
    with m Pair show ?thesis by simp
  next
    case (Internal mn mx db n cs)
    from children_ids[OF m[unfolded Pair Internal]] show ?thesis by (simp only: Pair Internal snd_conv)
  qed
qed

subsection \<open>The start node and the rest of the tree\<close>

lemma mset_concat_one:
  assumes "j < n" and "\<And>i. i < n \<Longrightarrow> i \<noteq> j \<Longrightarrow> f i = g i" and "mset (f j) = A + mset (g j)"
  shows "mset (concat (map f [0..<n])) = A + mset (concat (map g [0..<n]))"
proof -
  have s: "[0..<n] = [0..<j] @ j # [Suc j..<n]"
  proof -
    have "[0..<n] = [0..<j] @ [j..<n]" using upt_add_eq_append[of 0 j "n - j"] assms(1) by simp
    then show ?thesis using upt_conv_Cons[OF assms(1)] by simp
  qed
  have a: "map f [0..<j] = map g [0..<j]" using assms(1,2) by (intro map_cong) auto
  have b: "map f [Suc j..<n] = map g [Suc j..<n]" using assms(2) by (intro map_cong) auto
  show ?thesis unfolding s using assms(3) by (simp add: a b)
qed

lemma start_partition:
  "node_at n p = Some sn \<Longrightarrow>
   mset (ExportAllPointIds n) = mset (ExportAllPointIds sn) + mset (knn_reach (path @ p) (path, n))"
proof (induction p arbitrary: n path)
  case Nil
  then show ?case by (simp add: knn_reach_def)
next
  case (Cons j p)
  from Cons.prems obtain mn mx db k cs where n: "n = Internal mn mx db k cs"
    and j: "j < length cs" and at: "node_at (cs ! j) p = Some sn"
    by (cases n) (auto split: if_splits)
  let ?st = "path @ j # p"
  let ?f = "\<lambda>i. ExportAllPointIds (cs ! i)" and ?g = "\<lambda>i. knn_reach ?st (path @ [i], cs ! i)"
  have r: "knn_reach ?st (path, n) = concat (map ?g [0..<length cs])"
    using knn_reach_internal[of "(path, n)" ?st] by (simp add: n comp_def)
  have e: "ExportAllPointIds n = concat (map ?f [0..<length cs])"
    unfolding n ExportAllPointIds.simps by (subst (1) map_nth[symmetric]) (simp only: map_map comp_def)
  have other: "?f i = ?g i" if "i < length cs" "i \<noteq> j" for i
  proof -
    have "\<not> prefix (path @ [i]) ?st" using that(2) by auto
    then show ?thesis using that(2) by (simp add: knn_reach_def unmasked_all)
  qed
  have "mset (?f j) = mset (ExportAllPointIds sn) + mset (?g j)"
    using Cons.IH[OF at, of "path @ [j]"] by simp
  from mset_concat_one[of j "length cs" ?f ?g, OF j other this]
  show ?case unfolding r e .
qed

subsection \<open>The search for the start node ends\<close>

lemma closest_fold:
  assumes "fold (\<lambda>pTheChild (miniDist2, this).
                  let tempDist2 = GetDistance2ToBoundary (snd pTheChild) x rt True
                  in if tempDist2 < miniDist2 then (tempDist2, pTheChild) else (miniDist2, this))
             cs (m, t) = (m', t')"
  shows "(t' = t \<and> m' = m \<and> (\<forall>c \<in> set cs. m \<le> GetDistance2ToBoundary (snd c) x rt True)) \<or>
         (t' \<in> set cs \<and> GetDistance2ToBoundary (snd t') x rt True = m' \<and> m' < m)"
  using assms
proof (induction cs arbitrary: m t)
  case Nil
  then show ?case by simp
next
  case (Cons c cs)
  let ?d = "GetDistance2ToBoundary (snd c) x rt True"
  show ?case
  proof (cases "?d < m")
    case True
    with Cons.prems have "fold (\<lambda>pTheChild (miniDist2, this).
                  let tempDist2 = GetDistance2ToBoundary (snd pTheChild) x rt True
                  in if tempDist2 < miniDist2 then (tempDist2, pTheChild) else (miniDist2, this))
             cs (?d, c) = (m', t')" by simp
    from Cons.IH[OF this] True show ?thesis by auto
  next
    case False
    with Cons.prems have "fold (\<lambda>pTheChild (miniDist2, this).
                  let tempDist2 = GetDistance2ToBoundary (snd pTheChild) x rt True
                  in if tempDist2 < miniDist2 then (tempDist2, pTheChild) else (miniDist2, this))
             cs (m, t) = (m', t')" by simp
    from Cons.IH[OF this] False show ?thesis by auto
  qed
qed

lemma closest_child_cases:
  "(closest_child rt x par this = this \<and>
    (\<forall>c \<in> set (GetChildren par). SVTK_DOUBLE_MAX \<le> GetDistance2ToBoundary (snd c) x rt True)) \<or>
   (closest_child rt x par this \<in> set (GetChildren par) \<and>
    GetDistance2ToBoundary (snd (closest_child rt x par this)) x rt True < SVTK_DOUBLE_MAX)"
proof -
  obtain m' t' where f: "fold (\<lambda>pTheChild (miniDist2, this).
                  let tempDist2 = GetDistance2ToBoundary (snd pTheChild) x rt True
                  in if tempDist2 < miniDist2 then (tempDist2, pTheChild) else (miniDist2, this))
             (GetChildren par) (SVTK_DOUBLE_MAX, this) = (m', t')" by (meson surj_pair)
  have c: "closest_child rt x par this = t'" by (simp add: closest_child_def f)
  from closest_fold[OF f] show ?thesis unfolding c by auto
qed

lemma near_nonempty:
  "GetDistance2ToBoundary n x rt True < SVTK_DOUBLE_MAX \<Longrightarrow> NumberOfPoints n \<noteq> 0"
  by (auto simp: GetDistance2ToBoundary_def)

lemma nonempty_near:
  assumes "octree_inv pts n" and "DataBounds rt \<noteq> None" and "NumberOfPoints n \<noteq> 0"
    and "\<forall>i \<in> set (ExportAllPointIds n). Distance2BetweenPoints x (GetPoint pts i) < SVTK_DOUBLE_MAX"
  shows "GetDistance2ToBoundary n x rt True < SVTK_DOUBLE_MAX"
proof -
  from octree_inv_count[OF assms(1)] assms(3) obtain i where i: "i \<in> set (ExportAllPointIds n)"
    by (cases "ExportAllPointIds n") auto
  from data_distance_lower[OF assms(1,2) i, of x] assms(4) i show ?thesis
    by (auto simp: dist2_sym)
qed

lemma nonempty_child:
  assumes "octree_inv pts (snd c)" and "\<not> IsLeaf (snd c)" and "NumberOfPoints (snd c) \<noteq> 0"
  shows "\<exists>c' \<in> set (GetChildren c). NumberOfPoints (snd c') \<noteq> 0"
proof -
  obtain path nd where c: "c = (path, nd)" by (cases c)
  from assms(2) obtain mn mx db n cs where nd: "nd = Internal mn mx db n cs"
    using c by (cases nd) auto
  have "sum_list (map NumberOfPoints cs) \<noteq> 0" using assms(1,3) by (simp add: c nd)
  then obtain k where "k \<in> set cs" "NumberOfPoints k \<noteq> 0"
    by (metis (mono_tags, lifting) imageE list.set_map sum_list_nonneg_eq_0_iff
        octree_inv_count of_nat_0_le_iff assms(1) c nd octree_inv_children snd_conv)
  then obtain j where "j < length cs" "cs ! j = k" by (auto simp: in_set_conv_nth)
  then show ?thesis using \<open>NumberOfPoints k \<noteq> 0\<close> unfolding c nd
    by (intro bexI[of _ "(path @ [j], cs ! j)"]) auto
qed

text \<open>
  What the loops of the search for the start node work on: valid pointers \<open>pThisNode\<close> and
  \<open>theParent\<close>, and \<open>numPoints\<close> the count of \<open>pThisNode\<close>.
\<close>

definition start_state ::
  "point list \<Rightarrow> svtkIncrementalOctreeNode \<Rightarrow> point \<Rightarrow> node_ptr \<Rightarrow> node_ptr \<Rightarrow> int \<Rightarrow> bool" where
  "start_state pts rt x this par num \<longleftrightarrow>
     ptr_ok rt this \<and> ptr_ok rt par \<and> octree_inv pts (snd this) \<and>
     num = NumberOfPoints (snd this) \<and>
     (\<forall>i \<in> set (ExportAllPointIds (snd this)).
        Distance2BetweenPoints x (GetPoint pts i) < SVTK_DOUBLE_MAX)"

lemma start_state_child:
  assumes "start_state pts rt x this par num" and "c \<in> set (GetChildren this)"
  shows "start_state pts rt x c this (NumberOfPoints (snd c))"
  using assms children_inv[of pts this c] child_ids[of c this] ptr_ok_child[of rt this c]
  unfolding start_state_def by blast

lemma closest_child_nonempty:
  assumes st: "start_state pts rt x par gp num" and db: "DataBounds rt \<noteq> None"
    and nl: "\<not> IsLeaf (snd par)" and ne: "NumberOfPoints (snd par) \<noteq> 0"
  shows "closest_child rt x par this \<in> set (GetChildren par) \<and>
         NumberOfPoints (snd (closest_child rt x par this)) \<noteq> 0"
proof -
  have inv: "octree_inv pts (snd par)" using st by (simp add: start_state_def)
  from nonempty_child[OF inv nl ne] obtain c where c: "c \<in> set (GetChildren par)"
    "NumberOfPoints (snd c) \<noteq> 0" by blast
  have sc: "start_state pts rt x c par (NumberOfPoints (snd c))"
    by (rule start_state_child[OF st c(1)])
  have "octree_inv pts (snd c)" and "\<forall>i \<in> set (ExportAllPointIds (snd c)).
      Distance2BetweenPoints x (GetPoint pts i) < SVTK_DOUBLE_MAX"
    using sc by (simp_all add: start_state_def)
  then have "GetDistance2ToBoundary (snd c) x rt True < SVTK_DOUBLE_MAX"
    using c(2) by (intro nonempty_near[OF _ db])
  with c(1) closest_child_cases[of rt x par this] near_nonempty
  show ?thesis by fastforce
qed

lemma descend_outside_ends:
  assumes "start_state pts rt x this par num" and "DataBounds rt \<noteq> None" and "0 \<le> N"
  shows "\<exists>this1 par1 num1. descend_outside rt x N this par num = Some (this1, par1, num1) \<and>
           ptr_ok rt this1 \<and> ptr_ok rt par1"
  using assms(1)
proof (induction "size (snd this)" arbitrary: this par num rule: less_induct)
  case less
  note st = less.prems
  show ?case
  proof (cases "\<not> IsLeaf (snd this) \<and> num > N")
    case False
    then have "descend_outside rt x N this par num = Some (this, par, num)"
      by (subst descend_outside.simps) auto
    then show ?thesis using st by (simp add: start_state_def)
  next
    case True
    let ?c = "closest_child rt x this this"
    have ne: "NumberOfPoints (snd this) \<noteq> 0" using True st assms(3) by (auto simp: start_state_def)
    from closest_child_nonempty[OF st assms(2) _ ne, of this] True
    have c: "?c \<in> set (GetChildren this)" by simp
    have e: "descend_outside rt x N this par num
        = descend_outside rt x N ?c this (NumberOfPoints (snd ?c))"
      using True by (subst descend_outside.simps) simp
    from less.hyps[OF child_smaller[OF c] start_state_child[OF st c]]
    show ?thesis unfolding e .
  qed
qed

lemma descend_inside_result:
  assumes "start_state pts rt x this par num"
    and "descend_inside x N this par num = (this1, par1, num1)"
  shows "ptr_ok rt this1 \<and> ptr_ok rt par1 \<and> num1 = NumberOfPoints (snd this1) \<and>
         ((this1 = this \<and> par1 = par) \<or>
          (\<exists>gp. start_state pts rt x par1 gp (NumberOfPoints (snd par1)) \<and>
                this1 \<in> set (GetChildren par1) \<and> size (snd par1) \<le> size (snd this) \<and>
                N < NumberOfPoints (snd par1)))"
  using assms
proof (induction x N this par num rule: descend_inside.induct)
  case (1 x N path mn mx db n ids theParent numPoints)
  from "1.prems"(2) have "this1 = (path, Leaf mn mx db n ids)" "par1 = theParent" "num1 = numPoints"
    by simp_all
  then show ?case using "1.prems"(1) unfolding start_state_def by blast
next
  case (2 x N path mn mx db n cs theParent numPoints)
  let ?me = "(path, Internal mn mx db n cs)"
  let ?k = "GetChildIndex (Internal mn mx db n cs) x"
  show ?case
  proof (cases "numPoints > N \<and> ?k < length cs")
    case False
    then have "(this1, par1, num1) = (?me, theParent, numPoints)"
      using "2.prems"(2) by (auto simp: Let_def split: if_splits)
    then have "this1 = ?me" "par1 = theParent" "num1 = numPoints" by simp_all
    then show ?thesis using "2.prems"(1) unfolding start_state_def by blast
  next
    case True
    let ?c = "(path @ [?k], cs ! ?k)"
    have c: "?c \<in> set (GetChildren ?me)" using True by simp
    have sc: "start_state pts rt x ?c ?me (NumberOfPoints (cs ! ?k))"
      using start_state_child[OF "2.prems"(1) c] by simp
    have r: "descend_inside x N ?c ?me (NumberOfPoints (cs ! ?k)) = (this1, par1, num1)"
      using True "2.prems"(2) by (simp add: Let_def)
    have num: "numPoints = NumberOfPoints (snd ?me)"
      using "2.prems"(1) by (simp add: start_state_def)
    have gt: "N < numPoints" and kl: "?k < length cs" using True by simp_all
    have ih: "ptr_ok rt this1 \<and> ptr_ok rt par1 \<and> num1 = NumberOfPoints (snd this1) \<and>
         ((this1 = ?c \<and> par1 = ?me) \<or>
          (\<exists>gp. start_state pts rt x par1 gp (NumberOfPoints (snd par1)) \<and>
                this1 \<in> set (GetChildren par1) \<and> size (snd par1) \<le> size (snd ?c) \<and>
                N < NumberOfPoints (snd par1)))"
      by (rule "2.IH"[OF gt refl kl sc r])
    have sz: "size (snd ?c) \<le> size (snd ?me)" using child_smaller[OF c] by simp
    have me: "start_state pts rt x ?me theParent (NumberOfPoints (snd ?me))"
      using "2.prems"(1) num by simp
    have big: "N < NumberOfPoints (snd ?me)" using gt num by simp
    have "\<exists>gp. start_state pts rt x par1 gp (NumberOfPoints (snd par1)) \<and>
                this1 \<in> set (GetChildren par1) \<and> size (snd par1) \<le> size (snd ?me) \<and>
                N < NumberOfPoints (snd par1)"
    proof (cases "this1 = ?c \<and> par1 = ?me")
      case True
      then have a: "this1 = ?c" and b: "par1 = ?me" by simp_all
      show ?thesis unfolding a b using me c big by blast
    next
      case False
      with ih obtain gp where g: "start_state pts rt x par1 gp (NumberOfPoints (snd par1))"
        "this1 \<in> set (GetChildren par1)" "size (snd par1) \<le> size (snd ?c)"
        "N < NumberOfPoints (snd par1)" by blast
      from g(3) sz have "size (snd par1) \<le> size (snd ?me)" by (rule le_trans)
      with g(1,2,4) show ?thesis by blast
    qed
    with ih show ?thesis by blast
  qed
qed

lemma FindStartNode_ends:
  assumes "start_state pts rt x this par num" and "num \<noteq> 0"
    and "DataBounds rt \<noteq> None" and "1 \<le> N"
  shows "\<exists>sp. FindStartNode rt x N this par num = Some sp \<and> ptr_ok rt sp"
  using assms(1,2)
proof (induction "size (snd this)" arbitrary: this par num rule: less_induct)
  case less
  note st = less.prems(1) and ne = less.prems(2)
  have ok: "ptr_ok rt this" "ptr_ok rt par" using st by (simp_all add: start_state_def)
  show ?case
  proof (cases "ContainsPoint (snd this) x")
    case False
    from descend_outside_ends[OF st assms(3), of N] assms(4)
    obtain this1 par1 num1 where d: "descend_outside rt x N this par num = Some (this1, par1, num1)"
      "ptr_ok rt this1" "ptr_ok rt par1" by auto
    have "FindStartNode rt x N this par num = Some (if num1 \<ge> N then this1 else par1)"
      using False d(1) by (subst FindStartNode.simps) simp
    then show ?thesis using d(2,3) by simp
  next
    case True
    obtain this1 par1 num1 where d: "descend_inside x N this par num = (this1, par1, num1)"
      by (metis prod_cases3)
    note r = descend_inside_result[OF st d]
    show ?thesis
    proof (cases "num1 = 0")
      case False
      have "FindStartNode rt x N this par num = Some (if num1 \<ge> N then this1 else par1)"
        using True False d by (subst FindStartNode.simps) simp
      then show ?thesis using r by simp
    next
      case z: True
      have "this1 \<noteq> this" using z ne r st by (auto simp: start_state_def)
      with r obtain gp where p: "start_state pts rt x par1 gp (NumberOfPoints (snd par1))"
        "this1 \<in> set (GetChildren par1)" "size (snd par1) \<le> size (snd this)"
        "N < NumberOfPoints (snd par1)" by blast
      let ?c = "closest_child rt x par1 this1"
      have nl: "\<not> IsLeaf (snd par1)" using p(2) by (cases par1, cases "snd par1") auto
      have "NumberOfPoints (snd par1) \<noteq> 0" using p(4) assms(4) by simp
      from closest_child_nonempty[OF p(1) assms(3) nl this, of this1]
      have c: "?c \<in> set (GetChildren par1)" "NumberOfPoints (snd ?c) \<noteq> 0" by simp_all
      have e: "FindStartNode rt x N this par num
          = FindStartNode rt x N ?c par1 (NumberOfPoints (snd ?c))"
        using True z d by (subst FindStartNode.simps) simp
      have "size (snd ?c) < size (snd this)" using child_smaller[OF c(1)] p(3) by simp
      from less.hyps[OF this start_state_child[OF p(1) c(1)] c(2)]
      show ?thesis unfolding e .
    qed
  qed
qed

subsection \<open>The closest N points\<close>

lemma node_at_inv: "octree_inv pts n \<Longrightarrow> node_at n p = Some sn \<Longrightarrow> octree_inv pts sn"
proof (induction p arbitrary: n)
  case Nil
  then show ?case by simp
next
  case (Cons j p)
  from Cons.prems(2) obtain mn mx db k cs where n: "n = Internal mn mx db k cs"
    and j: "j < length cs" and at: "node_at (cs ! j) p = Some sn"
    by (cases n) (auto split: if_splits)
  have "octree_inv pts (cs ! j)" using Cons.prems(1) j unfolding n by simp
  from Cons.IH[OF this at] show ?case .
qed

lemma sort_map_key: "map f (sort_key f xs) = sort (map f xs)"
  by (rule properties_for_sort [symmetric]) simp_all

lemma top_k_rest:
  fixes L :: real
  assumes m: "mset ys = mset xs + mset zs" and far: "\<forall>z \<in> set zs. L \<le> z"
    and k: "k \<le> length (filter (\<lambda>v. v \<le> L) xs)"
  shows "take k (sort ys) = take k (sort xs)"
proof -
  let ?A = "filter (\<lambda>v. v \<le> L) xs" and ?B = "filter (\<lambda>v. \<not> v \<le> L) xs"
  have x: "sort xs = sort ?A @ sort ?B" by (rule sort_key_split[of "\<lambda>v. v" xs L])
  have "sort ys = sort ?A @ sort (?B @ zs)"
  proof (rule properties_for_sort)
    have "mset xs = mset ?A + mset ?B" by (induction xs) auto
    then show "mset (sort ?A @ sort (?B @ zs)) = mset ys" using m by simp
    have "\<forall>a \<in> set (sort ?A). \<forall>b \<in> set (sort (?B @ zs)). a \<le> b" using far by fastforce
    then show "sorted (sort ?A @ sort (?B @ zs))" unfolding sorted_append by simp
  qed
  then have "take k (sort ys) = take k (sort ?A)" using k by simp
  moreover have "take k (sort xs) = take k (sort ?A)" using k x by simp
  ultimately show ?thesis by simp
qed

text \<open>
  All the ids that \<^verbatim>\<open>FindClosestNPoints\<close> passes to \<^verbatim>\<open>InsertPoint\<close>, in the order of the
  calls: the points of the start node, then those of the leaves that the loop over the
  queue takes.
\<close>

definition knn_offered ::
  "point list \<Rightarrow> svtkIncrementalOctreeNode \<Rightarrow> point \<Rightarrow> int \<Rightarrow> svtkIdType list" where
  "knn_offered pts rt x N =
     (case FindStartNode rt x N ([], rt) ([], rt) (NumberOfPoints rt) of
        None \<Rightarrow> []
      | Some startNode \<Rightarrow>
          (let ptsSorter = insert_node_points pts x (snd startNode) (SortPoints_new N)
           in take (nat (NumberOfPoints (snd startNode))) (ExportAllPointIds (snd startNode)) @
              knn_order pts rt x (fst startNode) [([], rt)] ptsSorter (GetLargestDist2 ptsSorter)))"

lemma offers_fst: "map fst (offers pts x ids) = map (\<lambda>i. Distance2BetweenPoints x (GetPoint pts i)) ids"
  by (simp add: offers_def comp_def)

lemma offers_snd: "map snd (offers pts x ids) = ids"
  by (simp add: offers_def comp_def)

lemma offers_dist:
  "set ps \<subseteq> set (offers pts x ids) \<Longrightarrow>
   map (\<lambda>i. Distance2BetweenPoints x (GetPoint pts i)) (map snd ps) = map fst ps"
  by (auto simp: offers_def)

text \<open>
  Claim C3. On a tree with the invariants of section 3, all stored points being at a
  squared distance from \<open>x\<close> below the sentinel, and for an \<^verbatim>\<open>int\<close> \<open>K\<close> from 1 to the number
  of the stored points, \<^verbatim>\<open>FindClosestNPoints\<close> returns exactly \<open>K\<close> ids of stored points, none
  more often than the tree stores it. Their squared distances to \<open>x\<close> are, in the order
  of the output, the \<open>K\<close> smallest of the squared distances of all the stored points, which
  is what a scan of all the points finds. The output is the first \<open>K\<close> entries of a stable
  sort by squared distance of the ids in the order in which the search passes them to
  the sorter: ids at the same distance come in that order, the points of the start node
  before those of the leaves that the loop over the queue takes. This is not the order
  in which the points were inserted into the tree, as the example after the theorem
  shows.
\<close>

theorem FindClosestNPoints_sorted_offers:
  assumes bl: "BuildLocator l0 = Inr l"
    and rt: "OctreeRootNode l = Some rt" and pts: "LocatorPoints l = Some pts"
    and inv: "octree_inv pts rt"
    and fin: "\<forall>i \<in> set (ExportAllPointIds rt).
           Distance2BetweenPoints x (GetPoint pts i) < SVTK_DOUBLE_MAX"
    and K: "1 \<le> K" "K \<le> int (length (ExportAllPointIds rt))" "K \<le> SVTK_INT_MAX"
  shows "\<exists>out. FindClosestNPoints l0 K x result = Inr out \<and>
           length out = nat K \<and>
           mset out \<subseteq># mset (ExportAllPointIds rt) \<and>
           map (\<lambda>i. Distance2BetweenPoints x (GetPoint pts i)) out =
             take (nat K) (sort (map (\<lambda>i. Distance2BetweenPoints x (GetPoint pts i))
                                   (ExportAllPointIds rt))) \<and>
           out = map snd (take (nat K) (sort_key fst (offers pts x (knn_offered pts rt x K))))"
proof -
  let ?all = "ExportAllPointIds rt"
  let ?D = "\<lambda>i. Distance2BetweenPoints x (GetPoint pts i)"
  have cnt: "NumberOfPoints rt = int (length ?all)" using inv by (rule octree_inv_count)
  have ne: "NumberOfPoints rt \<noteq> 0" using cnt K(1,2) by linarith
  obtain i0 where i0: "i0 \<in> set ?all" using K by (cases ?all) auto
  have db: "DataBounds rt \<noteq> None"
    using octree_inv_data[OF inv] i0 by (cases "DataBounds rt") (auto simp: data_ok_def)
  have st0: "start_state pts rt x ([], rt) ([], rt) (NumberOfPoints rt)"
    using inv fin by (simp add: start_state_def ptr_ok_root)
  from FindStartNode_ends[OF st0 ne db K(1)] obtain sp
    where sp: "FindStartNode rt x K ([], rt) ([], rt) (NumberOfPoints rt) = Some sp"
      and ok: "ptr_ok rt sp" by blast
  have at: "node_at rt (fst sp) = Some (snd sp)" using ok by (simp add: ptr_ok_def)
  let ?sids = "ExportAllPointIds (snd sp)"
  have sinv: "octree_inv pts (snd sp)" by (rule node_at_inv[OF inv at])
  have part: "mset ?all = mset ?sids + mset (knn_reach (fst sp) ([], rt))"
    using start_partition[OF at, of "[]"] by simp
  have ssub: "set ?sids \<subseteq> set ?all" using part by (metis mset_subset_eq_add_left set_mset_mono set_mset_mset)
  have finle: "\<forall>i \<in> set ?all. ?D i \<le> SVTK_DOUBLE_MAX" using fin by fastforce
  have sfin: "\<forall>i \<in> set ?sids. ?D i \<le> SVTK_DOUBLE_MAX" using finle ssub by blast
  define s0 where "s0 = insert_node_points pts x (snd sp) (SortPoints_new K)"
  have tk: "take (nat (NumberOfPoints (snd sp))) ?sids = ?sids"
    using octree_inv_count[OF sinv] by simp
  have nr0: "NumRequested (SortPoints_new K) = nat K"
    using K by (simp add: SortPoints_new_def SVTK_INT_MAX_def)
  note i0s = insert_node_points_spec[OF sorter_spec_new sinv sfin, of K, folded s0_def]
  have sp0: "sorter_spec s0 (offers pts x ?sids)" using i0s(1) by simp
  have nrs0: "NumRequested s0 = nat K" using i0s(3) nr0 by simp
  define sf where "sf = knn_loop pts rt x (fst sp) [([], rt)] s0 (GetLargestDist2 s0)"
  define tr where "tr = knn_order pts rt x (fst sp) [([], rt)] s0 (GetLargestDist2 s0)"
  have "knn_post pts x (fst sp) [([], rt)] s0 (offers pts x ?sids) sf tr"
    unfolding sf_def tr_def
    by (rule knn_loop_spec[OF sp0 _ _ db]) (simp_all add: GetLargestDist2_def inv finle)
  then obtain rest where spf: "sorter_spec sf (offers pts x ?sids @ offers pts x tr)"
    and nrf: "NumRequested sf = NumRequested s0"
    and reach: "mset (knn_reach (fst sp) ([], rt)) = mset tr + mset rest"
    and far: "\<forall>i \<in> set rest. LargestDist2 sf \<le> ?D i"
    unfolding knn_post_def by auto
  define vis where "vis = ?sids @ tr"
  have spv: "sorter_spec sf (offers pts x vis)" using spf by (simp add: vis_def offers_append)
  have all: "mset ?all = mset vis + mset rest" using part reach by (simp add: vis_def)
  have off: "knn_offered pts rt x K = vis"
    by (simp add: knn_offered_def sp tk vis_def tr_def s0_def Let_def del: knn_order.simps)
  have res: "FindClosestNPoints l0 K x result = Inr (GetSortedIds sf)"
  proof -
    have "\<not> K > NumberOfPoints rt" "\<not> K \<le> 0" using cnt K by simp_all
    then show ?thesis using bl rt pts
      by (simp add: FindClosestNPoints_def sp sf_def s0_def Let_def del: knn_loop.simps)
  qed
  have nk: "NumRequested sf = nat K" using nrf nrs0 by simp
  have np: "NumberPoints sf = length (filter (\<lambda>v. v \<le> LargestDist2 sf) (map ?D vis))"
    using sorter_count[OF spv] by (simp add: offers_def filter_map comp_def)
  have enough: "nat K \<le> NumberPoints sf"
  proof (cases "LargestDist2 sf = SVTK_DOUBLE_MAX")
    case False
    then show ?thesis using spv nk by (auto simp: sorter_spec_def)
  next
    case True
    have "rest = []"
    proof (rule ccontr)
      assume "rest \<noteq> []"
      then obtain i where i: "i \<in> set rest" by (cases rest) auto
      then have "i \<in> set ?all" using all by (metis UnCI set_mset_mset set_mset_union)
      with fin far i True show False by fastforce
    qed
    then have "mset ?all = mset vis" using all by simp
    then have l: "length ?all = length vis" and s: "set vis = set ?all"
      by (metis size_mset, metis set_mset_mset)
    have "filter (\<lambda>v. v \<le> LargestDist2 sf) (map ?D vis) = map ?D vis"
      using finle s True by (auto simp: filter_id_conv)
    then show ?thesis using np l K by simp
  qed
  let ?srt = "sort_key fst (offers pts x vis)"
  have out: "GetSortedIds sf = map snd (take (nat K) ?srt)"
    using GetSortedIds_spec[OF spv] enough nk by simp
  have lenv: "nat K \<le> length vis" using enough np by (metis le_trans length_filter_le length_map)
  have len: "length (GetSortedIds sf) = nat K" unfolding out using lenv by (simp add: offers_def)
  have "mset (GetSortedIds sf) \<subseteq># mset (map snd ?srt)"
    unfolding out by (metis append_take_drop_id map_append mset_append mset_subset_eq_add_left)
  also have "mset (map snd ?srt) = mset vis"
    by (metis mset_map mset_sort offers_snd)
  also have "mset vis \<subseteq># mset ?all" using all by simp
  finally have sub: "mset (GetSortedIds sf) \<subseteq># mset ?all" .
  have "set (take (nat K) ?srt) \<subseteq> set (offers pts x vis)"
    using set_take_subset[of "nat K" ?srt] by simp
  then have "map ?D (GetSortedIds sf) = map fst (take (nat K) ?srt)"
    unfolding out by (rule offers_dist)
  also have "\<dots> = take (nat K) (sort (map ?D vis))"
    by (simp only: take_map [symmetric] sort_map_key offers_fst)
  also have "\<dots> = take (nat K) (sort (map ?D ?all))"
  proof (rule top_k_rest [symmetric])
    show "mset (map ?D ?all) = mset (map ?D vis) + mset (map ?D rest)" using all by simp
    show "\<forall>z \<in> set (map ?D rest). LargestDist2 sf \<le> z" using far by simp
    show "nat K \<le> length (filter (\<lambda>v. v \<le> LargestDist2 sf) (map ?D vis))"
      using enough np by simp
  qed
  finally have dist: "map ?D (GetSortedIds sf) = take (nat K) (sort (map ?D ?all))" .
  show ?thesis unfolding res off using len sub dist out by blast
qed

text \<open>
  The example tree, the query point \<open>(0.45, 0.45, 0.45)\<close> of scenario S1 and \<open>K = 2\<close>: the
  start node is the root, and the two closest of the three points are returned.
\<close>

theorem FindClosestNPoints_sorted_offers_witness:
  "BuildLocator example_locator = Inr example_locator \<and>
   octree_inv example_points example_root \<and>
   ExportAllPointIds example_root = [0, 1, 2] \<and>
   FindClosestNPoints example_locator 2 [45 / 100, 45 / 100, 45 / 100] [] = Inr [2, 0] \<and>
   map (\<lambda>i. Distance2BetweenPoints [45 / 100, 45 / 100, 45 / 100] (GetPoint example_points i)) [2, 0] =
     take (nat 2)
       (sort (map (\<lambda>i. Distance2BetweenPoints [45 / 100, 45 / 100, 45 / 100] (GetPoint example_points i))
                (ExportAllPointIds example_root))) \<and>
   [2, 0] = map snd (take (nat 2) (sort_key fst
              (offers example_points [45 / 100, 45 / 100, 45 / 100]
                 (knn_offered example_points example_root [45 / 100, 45 / 100, 45 / 100] 2))))"
proof -
  let ?x = "[45 / 100, 45 / 100, 45 / 100] :: point"
  have b: "BuildLocator example_locator = Inr example_locator"
    by (simp add: BuildLocator_def example_locator_def)
  have r: "OctreeRootNode example_locator = Some example_root" by (simp add: example_locator_def)
  have p: "LocatorPoints example_locator = Some example_points" by (simp add: example_locator_def)
  have i: "octree_inv example_points example_root" by code_simp
  have e: "ExportAllPointIds example_root = [0, 1, 2]" by code_simp
  have f: "\<forall>j \<in> set (ExportAllPointIds example_root).
      Distance2BetweenPoints ?x (GetPoint example_points j) < SVTK_DOUBLE_MAX"
    by code_simp
  have k1: "(1::int) \<le> 2" by simp
  have k2: "2 \<le> int (length (ExportAllPointIds example_root))" unfolding e by simp
  have k3: "2 \<le> SVTK_INT_MAX" by (simp add: SVTK_INT_MAX_def)
  have v: "FindClosestNPoints example_locator 2 ?x [] = Inr [2, 0]" by code_simp
  from FindClosestNPoints_sorted_offers [OF b r p i f k1 k2 k3, of "[]"] obtain out
    where g: "FindClosestNPoints example_locator 2 ?x [] = Inr out"
      "map (\<lambda>i. Distance2BetweenPoints ?x (GetPoint example_points i)) out =
         take (nat 2) (sort (map (\<lambda>i. Distance2BetweenPoints ?x (GetPoint example_points i))
                               (ExportAllPointIds example_root)))"
      "out = map snd (take (nat 2) (sort_key fst
              (offers example_points ?x (knn_offered example_points example_root ?x 2))))"
    by blast
  from g(1) have o: "out = [2, 0]" unfolding v by (simp only: sum.inject)
  from g(2,3) b i e v show ?thesis unfolding o by (simp only: simp_thms)
qed

text \<open>
  A second tree, with coordinates that are multiples of \<open>1 / 8\<close>, so that the differences,
  their squares and the sums of the squares below are the same in double arithmetic as
  over the reals. A locator for the bounds \<open>[0, 1]\<^sup>3\<close> with at most 2 points per leaf
  receives \<open>(3/8, 3/4, 3/4)\<close>, \<open>(7/8, 3/4, 3/4)\<close> and \<open>(7/8, 7/8, 7/8)\<close>, in this order, as the
  points 0, 1 and 2; the third insertion divides the root, point 0 goes to child 6 and
  the points 1 and 2 go to child 7.
\<close>

definition tie_points :: "point list" where
  "tie_points = [[3 / 8, 3 / 4, 3 / 4], [7 / 8, 3 / 4, 3 / 4], [7 / 8, 7 / 8, 7 / 8]]"

definition tie_root :: svtkIncrementalOctreeNode where
  "tie_root =
     Internal [- (1 / 100000), - (1 / 100000), - (1 / 100000)] [1, 1, 1]
       (Some ([3 / 8, 3 / 4, 3 / 4], [7 / 8, 7 / 8, 7 / 8])) 3
       [Leaf [- (1 / 100000), - (1 / 100000), - (1 / 100000)]
          [99999 / 200000, 99999 / 200000, 99999 / 200000] None 0 [],
        Leaf [99999 / 200000, - (1 / 100000), - (1 / 100000)]
          [1, 99999 / 200000, 99999 / 200000] None 0 [],
        Leaf [- (1 / 100000), 99999 / 200000, - (1 / 100000)]
          [99999 / 200000, 1, 99999 / 200000] None 0 [],
        Leaf [99999 / 200000, 99999 / 200000, - (1 / 100000)]
          [1, 1, 99999 / 200000] None 0 [],
        Leaf [- (1 / 100000), - (1 / 100000), 99999 / 200000]
          [99999 / 200000, 99999 / 200000, 1] None 0 [],
        Leaf [99999 / 200000, - (1 / 100000), 99999 / 200000]
          [1, 99999 / 200000, 1] None 0 [],
        Leaf [- (1 / 100000), 99999 / 200000, 99999 / 200000]
          [99999 / 200000, 1, 1]
          (Some ([3 / 8, 3 / 4, 3 / 4], [3 / 8, 3 / 4, 3 / 4])) 1 [0],
        Leaf [99999 / 200000, 99999 / 200000, 99999 / 200000] [1, 1, 1]
          (Some ([7 / 8, 3 / 4, 3 / 4], [7 / 8, 7 / 8, 7 / 8])) 2 [1, 2]]"

definition tie_locator :: svtkIncrementalOctreePointLocator where
  "tie_locator =
     \<lparr> FudgeFactor = 1 / 100000, OctreeMaxDimSize = 1, BuildCubicOctree = 0,
       MaxPointsPerLeaf = 2, InsertTolerance2 = 1 / 100, LocatorPoints = Some tie_points,
       OctreeRootNode = Some tie_root, Tolerance = 1 / 10, DataSet = None,
       BuildTime = 0, MTime = 0, DataSetMTime = 0 \<rparr>"

lemma tie_is_built:
  "(case InsertPointWithoutChecking
           (fst (InitPointInsertion (New (1 / 10) None 0 0 0 \<lparr> MaxPointsPerLeaf := 2 \<rparr>) (Some [])
              [0, 1, 0, 1, 0, 1])) [3 / 8, 3 / 4, 3 / 4] 0 1 of
      Inl e \<Rightarrow> False
    | Inr (l1, i1) \<Rightarrow>
        (case InsertPointWithoutChecking l1 [7 / 8, 3 / 4, 3 / 4] 0 1 of
           Inl e \<Rightarrow> False
         | Inr (l2, i2) \<Rightarrow>
             InsertPointWithoutChecking l2 [7 / 8, 7 / 8, 7 / 8] 0 1 = Inr (tie_locator, 2)))"
  by code_simp

text \<open>
  The query point \<open>(5/8, 3/4, 3/4)\<close> lies in child 7 of the root and is at the squared
  distance \<open>1 / 16\<close> from the points 0 and 1 and \<open>3 / 32\<close> from point 2. For \<open>K = 2\<close> the start
  node is child 7, the leaf of the points 1 and 2, and the leaf of point 0 is taken from
  the queue after it: the output has point 1 before point 0, which was inserted first.
  For \<open>K = 3\<close> the start node is the root and the output has 0 before 1.
\<close>

theorem FindClosestNPoints_tie_counterexample:
  "FindClosestNPoints tie_locator 2 [5 / 8, 3 / 4, 3 / 4] [] = Inr [1, 0] \<and>
   Distance2BetweenPoints [5 / 8, 3 / 4, 3 / 4] (GetPoint tie_points 1) = 1 / 16 \<and>
   Distance2BetweenPoints [5 / 8, 3 / 4, 3 / 4] (GetPoint tie_points 0) = 1 / 16 \<and>
   Distance2BetweenPoints [5 / 8, 3 / 4, 3 / 4] (GetPoint tie_points 2) = 3 / 32 \<and>
   FindClosestNPoints tie_locator 3 [5 / 8, 3 / 4, 3 / 4] [] = Inr [0, 1, 2]"
proof -
  let ?x = "[5 / 8, 3 / 4, 3 / 4] :: point"
  have a: "FindClosestNPoints tie_locator 2 ?x [] = Inr [1, 0]" by code_simp
  have b: "Distance2BetweenPoints ?x (GetPoint tie_points 1) = 1 / 16" by code_simp
  have c: "Distance2BetweenPoints ?x (GetPoint tie_points 0) = 1 / 16" by code_simp
  have d: "Distance2BetweenPoints ?x (GetPoint tie_points 2) = 3 / 32" by code_simp
  have e: "FindClosestNPoints tie_locator 3 ?x [] = Inr [0, 1, 2]" by code_simp
  from a b c d e show ?thesis by (simp only: simp_thms)
qed

end
